theory Spec2Isabelle
  imports Main "HOL-Library.Word" "HOL-Library.Multiset"
begin

section \<open>URL joining (\<open>urljoin\<close>, io.go lines 118-132)\<close>

text \<open>
  Go strings are byte sequences; they are modelled as \<open>string\<close> (a list of \<open>char\<close>).
  \<open>strings.TrimRight(s, cutset)\<close> removes every trailing byte that occurs in the cutset,
  \<open>strings.TrimLeft(s, cutset)\<close> every leading one (the cutset used here is the ASCII
  string \<open>''/''\<close>).
\<close>

definition TrimLeft :: "string \<Rightarrow> string \<Rightarrow> string" where
  "TrimLeft s cutset = dropWhile (\<lambda>c. c \<in> set cutset) s"

definition TrimRight :: "string \<Rightarrow> string \<Rightarrow> string" where
  "TrimRight s cutset = rev (dropWhile (\<lambda>c. c \<in> set cutset) (rev s))"

text \<open>
  The body of the \<open>for _, s := range v\<close> loop of \<open>urljoin\<close>: one iteration maps the
  accumulator \<open>url\<close> and the segment \<open>s\<close> to the new accumulator.
\<close>

definition urljoin_step :: "string \<Rightarrow> string \<Rightarrow> string" where
  "urljoin_step url s =
     (if url = [] then s
      else if s \<noteq> [] then TrimRight url ''/'' @ ''/'' @ TrimLeft s ''/''
      else url)"

fun urljoin_loop :: "string \<Rightarrow> string list \<Rightarrow> string" where
  "urljoin_loop url [] = url"
| "urljoin_loop url (s # v) = urljoin_loop (urljoin_step url s) v"

definition urljoin :: "string list \<Rightarrow> string" where
  "urljoin v = urljoin_loop [] v"

text \<open>
  The reading of \<open>urljoin\<close> given in prose: the first segment is kept as it is, and every
  later non-empty segment is appended with one separator, empty ones being skipped.
\<close>

definition join_segment :: "string \<Rightarrow> string \<Rightarrow> string" where
  "join_segment acc s = TrimRight acc ''/'' @ ''/'' @ TrimLeft s ''/''"

fun urljoin_first_kept :: "string list \<Rightarrow> string" where
  "urljoin_first_kept [] = []"
| "urljoin_first_kept (first # rest) = foldl join_segment first (filter (\<lambda>s. s \<noteq> []) rest)"

section \<open>Data model and logging (io.go lines 14-116)\<close>

subsection \<open>Errors, jobs and the package's variables\<close>

text \<open>
  A Go \<open>error\<close> value is one of: the sentinel \<open>yum.ErrChecksumMismatch\<close> (compared by
  identity in the source), an error made by a library (\<open>net/http\<close>, \<open>os\<close>, \<open>io\<close>, the
  checksum verifier) with its message, or an error built here by \<open>fmt.Errorf\<close> with its
  formatted message.
\<close>

datatype error = ErrChecksumMismatch | LibError string | FmtErrorf string

text \<open>The struct \<open>DownloadJob\<close>: \<open>Size\<close> is a \<open>uint64\<close>, \<open>Index\<close> a Go \<open>int\<close>.\<close>

record DownloadJob =
  Label :: string
  URL :: string
  Size :: "64 word"
  Path :: string
  Checksum :: string
  ChecksumType :: string
  Index :: int
  Error :: "error option"

text \<open>
  What io.go uses and does not declare: the package-level settings \<open>LogFilePath\<close>,
  \<open>DebugMode\<close> and \<open>DownloadThreads\<close> (declared in another file of the package), the
  rendering \<open>bytefmt.ByteSize\<close> and the message of the sentinel \<open>yum.ErrChecksumMismatch\<close>
  (both from libraries). They are parameters of the model.
\<close>

record env =
  LogFilePath :: string
  DebugMode :: bool
  DownloadThreads :: int
  ByteSize :: "64 word \<Rightarrow> string"
  MismatchText :: string

text \<open>The method \<open>err.Error()\<close>: the message of an error.\<close>

fun Error_text :: "env \<Rightarrow> error \<Rightarrow> string" where
  "Error_text e ErrChecksumMismatch = MismatchText e"
| "Error_text e (LibError m) = m"
| "Error_text e (FmtErrorf m) = m"

text \<open>
  An open \<open>*os.File\<close> is identified by a number. The two package-level variables of
  io.go, both \<open>nil\<close> at program start; a \<open>*log.Logger\<close> is identified by the file it
  writes to.
\<close>

type_synonym os_file = nat

record globals =
  logfileHandle :: "os_file option"
  logger :: "os_file option"

definition globals_init :: globals where
  "globals_init = \<lparr>logfileHandle = None, logger = None\<rparr>"

text \<open>
  Ways in which the process stops: a \<open>panic\<close> with an error or a message, a nil pointer
  dereference, \<open>os.Exit\<close>.
\<close>

datatype halt = PanicError error | PanicMessage string | PanicNilPointer | PanicClosedChannel | OsExit int

text \<open>What the program writes: to standard output, to standard error, or through
  \<open>logger.Printf\<close> to the logger's file (the logger adds the timestamp).\<close>

datatype out_event = Stdout string | Stderr string | LoggerPrintf os_file string

subsection \<open>Rendering of \<open>%d\<close>\<close>

fun show_nat :: "nat \<Rightarrow> string" where
  "show_nat n =
     (if n < 10 then [''0123456789'' ! n]
      else show_nat (n div 10) @ [''0123456789'' ! (n mod 10)])"

declare show_nat.simps [simp del]

definition show_int :: "int \<Rightarrow> string" where
  "show_int i = (if i < 0 then ''-'' @ show_nat (nat (- i)) else show_nat (nat i))"

subsection \<open>The log categories and the printing functions\<close>

definition LOG_CAT_ERROR :: int where "LOG_CAT_ERROR = 0"
definition LOG_CAT_WARN :: int where "LOG_CAT_WARN = 1"
definition LOG_CAT_INFO :: int where "LOG_CAT_INFO = 2"
definition LOG_CAT_DEBUG :: int where "LOG_CAT_DEBUG = 3"

text \<open>
  Modelled from the spec: \<open>PanicOn\<close> is called by io.go and declared in another file of
  the package. By the spec a failure to open or close the log file aborts the process at once,
  so \<open>PanicOn(err)\<close> panics with \<open>err\<close> when it is not \<open>nil\<close> and returns otherwise.
\<close>

definition PanicOn :: "error option \<Rightarrow> halt option" where
  "PanicOn err = (case err of None \<Rightarrow> None | Some e \<Rightarrow> Some (PanicError e))"

text \<open>
  The printing functions take \<open>format, a...\<close>; the model takes the text
  \<open>fmt.Sprintf(format, a...)\<close>, which each caller below writes out. A function returns the
  events it writes, or how the process stops.

  \<open>Logf\<close>: the \<open>switch\<close> on the category (whose default branch panics; the verb \<open>%s\<close>
  applied to an \<open>int\<close> renders as \<open>%!s(int=N)\<close>), then \<open>logger.Printf\<close>, which dereferences
  \<open>logger\<close>.
\<close>

definition Logf :: "globals \<Rightarrow> int \<Rightarrow> string \<Rightarrow> halt + out_event list" where
  "Logf g category msg =
     (let cat =
        (if category = LOG_CAT_ERROR then Inr ''ERROR''
         else if category = LOG_CAT_WARN then Inr ''WARNING''
         else if category = LOG_CAT_INFO then Inr ''INFO''
         else if category = LOG_CAT_DEBUG then Inr ''DEBUG''
         else Inl (PanicMessage (''Unrecognized log category: %!s(int='' @ show_int category @ '')'')))
      in case cat of
           Inl h \<Rightarrow> Inl h
         | Inr c \<Rightarrow>
             (case logger g of
                None \<Rightarrow> Inl PanicNilPointer
              | Some f \<Rightarrow> Inr [LoggerPrintf f (c @ '' '' @ msg)]))"

definition Printf :: "globals \<Rightarrow> string \<Rightarrow> halt + out_event list" where
  "Printf g msg =
     (if logger g = None then Inr [Stdout msg]
      else Logf g LOG_CAT_INFO msg)"

definition Errorf :: "env \<Rightarrow> globals \<Rightarrow> error option \<Rightarrow> string \<Rightarrow> halt + out_event list" where
  "Errorf e g err msg =
     (if logger g = None then
        (case err of
           Some er \<Rightarrow> Inr [Stderr (''ERROR: '' @ msg @ '': '' @ Error_text e er @ [CHR 0x0A])]
         | None \<Rightarrow> Inr [Stderr (''ERROR: '' @ msg @ [CHR 0x0A])])
      else
        (case err of
           Some er \<Rightarrow> Logf g LOG_CAT_ERROR (msg @ '': '' @ Error_text e er @ [CHR 0x0A])
         | None \<Rightarrow> Logf g LOG_CAT_ERROR msg))"

text \<open>\<open>Fatalf\<close> never returns: it stops the process after what \<open>Errorf\<close> wrote.\<close>

definition Fatalf :: "env \<Rightarrow> globals \<Rightarrow> error option \<Rightarrow> string \<Rightarrow> out_event list \<times> halt" where
  "Fatalf e g err msg =
     (case Errorf e g err msg of
        Inl h \<Rightarrow> ([], h)
      | Inr evs \<Rightarrow> (evs, OsExit 1))"

definition Dprintf :: "env \<Rightarrow> globals \<Rightarrow> string \<Rightarrow> halt + out_event list" where
  "Dprintf e g msg =
     (if DebugMode e then
        (if logger g = None then Inr [Stderr (''DEBUG: '' @ msg)]
         else Logf g LOG_CAT_DEBUG msg)
      else Inr [])"

text \<open>
  The severity of a written line, read off the text as the functions above write it:
  \<open>ERROR: \<close> on standard error, \<open>ERROR \<close> through the logger.
\<close>

fun is_error_line :: "out_event \<Rightarrow> bool" where
  "is_error_line (Stderr s) = (take 7 s = ''ERROR: '')"
| "is_error_line (LoggerPrintf f s) = (take 6 s = ''ERROR '')"
| "is_error_line (Stdout s) = False"


subsection \<open>The log file (\<open>InitLogFile\<close>, \<open>CloseLogFile\<close>)\<close>

text \<open>
  The state of the process as far as the log file goes: the two variables, the files the
  process holds open, and what it has written.
\<close>

record process =
  vars :: globals
  open_files :: "os_file list"
  written :: "out_event list"

definition process_init :: process where
  "process_init = \<lparr>vars = globals_init, open_files = [], written = []\<rparr>"

text \<open>
  \<open>InitLogFile\<close>: \<open>opened\<close> is the result of \<open>os.OpenFile(LogFilePath, ...)\<close>, an error or
  the new file. The file is bound to the local \<open>f\<close> and handed to \<open>log.New\<close>;
  \<open>logfileHandle\<close> is not assigned.
\<close>

definition InitLogFile :: "env \<Rightarrow> error + os_file \<Rightarrow> process \<Rightarrow> halt + process" where
  "InitLogFile e opened p =
     (if LogFilePath e = [] then Inr p
      else
        (case opened of
           Inl err \<Rightarrow> (case PanicOn (Some err) of Some h \<Rightarrow> Inl h | None \<Rightarrow> Inr p)
         | Inr f \<Rightarrow>
             (case PanicOn None of
                Some h \<Rightarrow> Inl h
              | None \<Rightarrow>
                  Inr (p\<lparr>open_files := f # open_files p,
                         vars := (vars p)\<lparr>logger := Some f\<rparr>\<rparr>))))"

text \<open>\<open>CloseLogFile\<close>: \<open>closed\<close> is the result of \<open>logfileHandle.Close()\<close>, if it runs.\<close>

definition CloseLogFile :: "error option \<Rightarrow> process \<Rightarrow> halt + process" where
  "CloseLogFile closed p =
     (case logfileHandle (vars p) of
        Some f \<Rightarrow>
          (case PanicOn closed of
             Some h \<Rightarrow> Inl h
           | None \<Rightarrow> Inr (p\<lparr>open_files := removeAll f (open_files p)\<rparr>))
      | None \<Rightarrow> Inr p)"

text \<open>
  The calls into the logging part of io.go that a program can make, with the results of
  the system calls they trigger, and their effect on the process. The printing functions
  read the variables and write; they assign nothing.
\<close>

datatype log_call =
    CallInitLogFile env "error + os_file"
  | CallCloseLogFile "error option"
  | CallLogf int string
  | CallPrintf string
  | CallErrorf env "error option" string
  | CallFatalf env "error option" string
  | CallDprintf env string

definition wrote :: "process \<Rightarrow> halt + out_event list \<Rightarrow> halt + process" where
  "wrote p r = (case r of Inl h \<Rightarrow> Inl h | Inr evs \<Rightarrow> Inr (p\<lparr>written := written p @ evs\<rparr>))"

fun log_call_exec :: "log_call \<Rightarrow> process \<Rightarrow> halt + process" where
  "log_call_exec (CallInitLogFile e opened) p = InitLogFile e opened p"
| "log_call_exec (CallCloseLogFile closed) p = CloseLogFile closed p"
| "log_call_exec (CallLogf category msg) p = wrote p (Logf (vars p) category msg)"
| "log_call_exec (CallPrintf msg) p = wrote p (Printf (vars p) msg)"
| "log_call_exec (CallErrorf e err msg) p = wrote p (Errorf e (vars p) err msg)"
| "log_call_exec (CallFatalf e err msg) p = Inl (snd (Fatalf e (vars p) err msg))"
| "log_call_exec (CallDprintf e msg) p = wrote p (Dprintf e (vars p) msg)"

text \<open>A sequence of calls runs until the process stops.\<close>

fun log_calls_exec :: "log_call list \<Rightarrow> process \<Rightarrow> halt + process" where
  "log_calls_exec [] p = Inr p"
| "log_calls_exec (c # cs) p =
     (case log_call_exec c p of Inl h \<Rightarrow> Inl h | Inr p' \<Rightarrow> log_calls_exec cs p')"

text \<open>
  The invariant of the log file: \<open>logfileHandle\<close> is \<open>nil\<close>, and the file behind the logger,
  if there is one, is open.
\<close>

definition log_inv :: "process \<Rightarrow> bool" where
  "log_inv p \<longleftrightarrow> logfileHandle (vars p) = None \<and>
     (\<forall>f. logger (vars p) = Some f \<longrightarrow> f \<in> set (open_files p))"

text \<open>A sample configuration, used to run the model on concrete inputs.\<close>

definition env0 :: env where
  "env0 = \<lparr>LogFilePath = ''y10k.log'', DebugMode = False, DownloadThreads = 1,
           ByteSize = (\<lambda>n. ''1K''), MismatchText = ''Checksum mismatch''\<rparr>"

section \<open>The download engine (\<open>Download\<close>, io.go lines 134-229)\<close>

subsection \<open>One job: fetch, status check, persist, verify (lines 166-206)\<close>

text \<open>
  The outside world answers each call a worker makes for a job. The answers are inputs of
  the model: the result of \<open>http.Get(job.URL)\<close> (an error, or a response with its status),
  of \<open>os.Create(job.Path)\<close>, of \<open>io.Copy(w, resp.Body)\<close> (the bytes that reached the file and
  the error, if any) and of \<open>yum.ValidateFileChecksum\<close>.
\<close>

record Response =
  StatusCode :: int
  Status :: string

record ext =
  get_result :: "error + Response"
  create_result :: "error option"
  copy_result :: "string \<times> error option"
  validate_result :: "error option"

definition StatusOK :: int where "StatusOK = 200"

text \<open>The calls a job has made, with their results, and the resources it holds.\<close>

datatype call =
    HttpGet string
  | OsCreate string "error option"
  | IoCopy string string "error option"
  | ValidateFileChecksum string string string

datatype resource = RespBody int | OutFile int

text \<open>
  The effect of a call on the files, a map from paths to contents: a successful
  \<open>os.Create\<close> truncates or creates, \<open>io.Copy\<close> leaves the bytes it wrote.
\<close>

fun call_effect :: "call \<Rightarrow> (string \<rightharpoonup> string) \<Rightarrow> (string \<rightharpoonup> string)" where
  "call_effect (OsCreate path None) fs = fs(path \<mapsto> [])"
| "call_effect (OsCreate path (Some err)) fs = fs"
| "call_effect (IoCopy path bytes err) fs = fs(path \<mapsto> bytes)"
| "call_effect (HttpGet url) fs = fs"
| "call_effect (ValidateFileChecksum path digest alg) fs = fs"

fun is_file_call :: "call \<Rightarrow> bool" where
  "is_file_call (OsCreate path err) = True"
| "is_file_call (IoCopy path bytes err) = True"
| "is_file_call (HttpGet url) = False"
| "is_file_call (ValidateFileChecksum path digest alg) = False"

record outcome =
  job_out :: DownloadJob
  calls_made :: "call list"
  deferred :: "resource list"

text \<open>
  The verify stage (lines 199-206): \<open>verdict\<close> is what \<open>yum.ValidateFileChecksum\<close> returned.
\<close>

definition validate_checksum :: "env \<Rightarrow> error option \<Rightarrow> DownloadJob \<Rightarrow> DownloadJob" where
  "validate_checksum e verdict job =
     (case verdict of
        None \<Rightarrow> job
      | Some err \<Rightarrow>
          if err = ErrChecksumMismatch then job\<lparr>Error := Some err\<rparr>
          else job\<lparr>Error := Some (FmtErrorf (''Checksum validation error: '' @ Error_text e err))\<rparr>)"

text \<open>
  The body of the worker's loop from the request to the label \<open>JobDone\<close> (lines 168-206).
  Each \<open>goto JobDone\<close> is a branch that returns. A \<open>defer\<close> statement registers the close
  of its resource with the enclosing function, which is the worker's goroutine: the
  resources so registered are returned in the order of registration.
\<close>

definition fetch_persist_verify :: "env \<Rightarrow> ext \<Rightarrow> DownloadJob \<Rightarrow> outcome" where
  "fetch_persist_verify e x job =
     (case get_result x of
        Inl err \<Rightarrow>
          \<lparr>job_out = job\<lparr>Error := Some err\<rparr>,
           calls_made = [HttpGet (URL job)],
           deferred = []\<rparr>
      | Inr resp \<Rightarrow>
          if StatusCode resp \<noteq> StatusOK then
            \<lparr>job_out = job\<lparr>Error := Some (FmtErrorf (''Bad status: '' @ Status resp))\<rparr>,
             calls_made = [HttpGet (URL job)],
             deferred = [RespBody (Index job)]\<rparr>
          else
            (case create_result x of
               Some err \<Rightarrow>
                 \<lparr>job_out = job\<lparr>Error := Some err\<rparr>,
                  calls_made = [HttpGet (URL job), OsCreate (Path job) (Some err)],
                  deferred = [RespBody (Index job)]\<rparr>
             | None \<Rightarrow>
                 (case copy_result x of
                    (bytes, Some err) \<Rightarrow>
                      \<lparr>job_out = job\<lparr>Error := Some err\<rparr>,
                       calls_made = [HttpGet (URL job), OsCreate (Path job) None,
                                     IoCopy (Path job) bytes (Some err)],
                       deferred = [RespBody (Index job), OutFile (Index job)]\<rparr>
                  | (bytes, None) \<Rightarrow>
                      \<lparr>job_out = validate_checksum e (validate_result x) job,
                       calls_made = [HttpGet (URL job), OsCreate (Path job) None,
                                     IoCopy (Path job) bytes None,
                                     ValidateFileChecksum (Path job) (Checksum job) (ChecksumType job)],
                       deferred = [RespBody (Index job), OutFile (Index job)]\<rparr>)))"

text \<open>The job's whole pipeline succeeded: every call returned without error, with status 200.\<close>

definition all_stages_ok :: "ext \<Rightarrow> bool" where
  "all_stages_ok x =
     (case get_result x of
        Inl err \<Rightarrow> False
      | Inr resp \<Rightarrow>
          StatusCode resp = StatusOK \<and> create_result x = None
          \<and> snd (copy_result x) = None \<and> validate_result x = None)"

text \<open>The text of the progress line (line 167) and of the failure message (line 215).\<close>

definition progress_text :: "env \<Rightarrow> DownloadJob list \<Rightarrow> DownloadJob \<Rightarrow> string" where
  "progress_text e jobs job =
     ''[ '' @ show_int (Index job) @ '' / '' @ show_int (int (length jobs)) @ '' ] Downloading ''
       @ Label job @ '' ('' @ ByteSize e (Size job) @ '')...'' @ [CHR 0x0A]"

definition failure_text :: "DownloadJob \<Rightarrow> string" where
  "failure_text job = ''Error downloading '' @ Label job"

subsection \<open>Goroutines and channels\<close>

text \<open>
  \<open>Download\<close> runs a producer goroutine, \<open>DownloadThreads\<close> worker goroutines and its own
  thread, which meet on the unbuffered channels \<open>c\<close> and \<open>done\<close>. The model is a state
  with one program counter per goroutine and a step function that performs one action of
  one goroutine; an execution is a list of actions (a schedule), so that every
  interleaving is a schedule. A send and its receive on an unbuffered channel are one
  action.

  The producer (lines 152-158) is at iteration \<open>i\<close> of its loop (\<open>Sending i\<close>: blocked on
  \<open>c <- job\<close>, or about to close \<open>c\<close> when \<open>i\<close> is the length of the list), or has closed
  \<open>c\<close>.
\<close>

datatype producer = NotStarted | Sending nat | Closed

text \<open>
  A worker (lines 163-220) is at the head of \<open>for job := range c\<close>, holds a job it has just
  received, is at \<open>JobDone\<close> with the processed job, is at \<open>done <- true\<close>, is returning
  (its deferred calls are about to run), or has ended. It carries the closes its
  \<open>defer\<close> statements have registered so far.
\<close>

datatype worker_pc =
    AtRange
  | GotJob DownloadJob
  | AtJobDone DownloadJob
  | AtDone
  | Returning
  | Ended

record worker =
  pc :: worker_pc
  defers :: "resource list"

text \<open>
  The caller's thread is in the last loop (lines 224-226) with counter \<open>i\<close>, or has
  returned a value.
\<close>

datatype main_pc = Waiting int | Returned "error option"

text \<open>
  The state: the goroutines, the values sent on \<open>complete\<close> in order, the number of times
  \<open>complete\<close> was closed, what was written, the calls made (by job index), the resources
  that are open, the jobs that have passed \<open>JobDone\<close> in order (a history, for stating
  properties), and how the process stopped, if it did.
\<close>

record state =
  prod :: producer
  workers :: "worker list"
  main_thread :: main_pc
  sent :: "DownloadJob list"
  closes :: nat
  printed :: "out_event list"
  calls :: "(int \<times> call) list"
  open_res :: "resource list"
  finished :: "DownloadJob list"
  crashed :: "halt option"

datatype action =
    Take nat
  | Process nat ext
  | Deliver nat
  | Exhaust nat
  | Signal nat
  | Finish nat
  | CloseC
  | Return

definition set_worker :: "nat \<Rightarrow> worker \<Rightarrow> state \<Rightarrow> state" where
  "set_worker w v s = s\<lparr>workers := (workers s)[w := v]\<rparr>"

text \<open>
  \<open>Take w\<close>: the producer's \<open>c <- job\<close> (line 155) meets worker \<open>w\<close>'s receive (line 164).
  The producer has set \<open>job.Index = i + 1\<close> on its copy of \<open>jobs[i]\<close> (line 154).
\<close>

definition do_take :: "DownloadJob list \<Rightarrow> nat \<Rightarrow> state \<Rightarrow> state option" where
  "do_take jobs w s =
     (case prod s of
        Sending i \<Rightarrow>
          if i < length jobs \<and> w < length (workers s) \<and> pc (workers s ! w) = AtRange then
            Some (set_worker w ((workers s ! w)\<lparr>pc := GotJob ((jobs ! i)\<lparr>Index := int i + 1\<rparr>)\<rparr>)
                    (s\<lparr>prod := Sending (Suc i)\<rparr>))
          else None
      | _ \<Rightarrow> None)"

text \<open>\<open>CloseC\<close>: the producer's loop is over and it closes \<open>c\<close> (line 157).\<close>

definition do_close_c :: "DownloadJob list \<Rightarrow> state \<Rightarrow> state option" where
  "do_close_c jobs s =
     (case prod s of
        Sending i \<Rightarrow> if i < length jobs then None else Some (s\<lparr>prod := Closed\<rparr>)
      | _ \<Rightarrow> None)"

text \<open>
  \<open>Process w x\<close>: worker \<open>w\<close> runs lines 167-206 on its job, the outside world answering
  with \<open>x\<close>: the progress line, then the pipeline up to \<open>JobDone\<close>.
\<close>

definition do_process :: "env \<Rightarrow> globals \<Rightarrow> DownloadJob list \<Rightarrow> nat \<Rightarrow> ext \<Rightarrow> state \<Rightarrow> state option" where
  "do_process e g jobs w x s =
     (if w < length (workers s) then
        (case pc (workers s ! w) of
           GotJob job \<Rightarrow>
             (case Dprintf e g (progress_text e jobs job) of
                Inl h \<Rightarrow> Some (s\<lparr>crashed := Some h\<rparr>)
              | Inr evs \<Rightarrow>
                  (let r = fetch_persist_verify e x job in
                   Some (set_worker w \<lparr>pc = AtJobDone (job_out r),
                                        defers = defers (workers s ! w) @ deferred r\<rparr>
                           (s\<lparr>printed := printed s @ evs,
                              calls := calls s @ map (Pair (Index job)) (calls_made r),
                              open_res := open_res s @ deferred r\<rparr>))))
         | _ \<Rightarrow> None)
      else None)"

text \<open>
  \<open>Deliver w\<close>: worker \<open>w\<close> runs lines 211-216 and goes back to the head of its loop. With a
  channel, the job is sent on it (the caller is taken to receive; a send on a closed
  channel panics); without one, a job with an error is reported through \<open>Errorf\<close>.
\<close>

definition do_deliver :: "env \<Rightarrow> globals \<Rightarrow> bool \<Rightarrow> nat \<Rightarrow> state \<Rightarrow> state option" where
  "do_deliver e g complete w s =
     (if w < length (workers s) then
        (case pc (workers s ! w) of
           AtJobDone job \<Rightarrow>
             (let s' = set_worker w ((workers s ! w)\<lparr>pc := AtRange\<rparr>)
                         (s\<lparr>finished := finished s @ [job]\<rparr>) in
              if complete then
                (if closes s > 0 then Some (s\<lparr>crashed := Some PanicClosedChannel\<rparr>)
                 else Some (s'\<lparr>sent := sent s @ [job]\<rparr>))
              else if Error job \<noteq> None then
                (case Errorf e g (Error job) (failure_text job) of
                   Inl h \<Rightarrow> Some (s\<lparr>crashed := Some h\<rparr>)
                 | Inr evs \<Rightarrow> Some (s'\<lparr>printed := printed s @ evs\<rparr>))
              else Some s')
         | _ \<Rightarrow> None)
      else None)"

text \<open>\<open>Exhaust w\<close>: worker \<open>w\<close>'s receive finds \<open>c\<close> closed, and its loop ends.\<close>

definition do_exhaust :: "nat \<Rightarrow> state \<Rightarrow> state option" where
  "do_exhaust w s =
     (if w < length (workers s) \<and> pc (workers s ! w) = AtRange \<and> prod s = Closed then
        Some (set_worker w ((workers s ! w)\<lparr>pc := AtDone\<rparr>) s)
      else None)"

text \<open>
  \<open>Signal w\<close>: worker \<open>w\<close>'s \<open>done <- true\<close> (line 219) meets the caller's \<open><-done\<close>
  (line 225), which is inside the loop only while \<open>i < DownloadThreads\<close>.
\<close>

definition do_signal :: "env \<Rightarrow> nat \<Rightarrow> state \<Rightarrow> state option" where
  "do_signal e w s =
     (case main_thread s of
        Waiting i \<Rightarrow>
          if i < DownloadThreads e \<and> w < length (workers s) \<and> pc (workers s ! w) = AtDone then
            Some (set_worker w ((workers s ! w)\<lparr>pc := Returning\<rparr>)
                    (s\<lparr>main_thread := Waiting (i + 1)\<rparr>))
          else None
      | Returned r \<Rightarrow> None)"

text \<open>
  \<open>Finish w\<close>: the function of worker \<open>w\<close> returns, and the closes its \<open>defer\<close> statements
  registered run.
\<close>

definition do_finish :: "nat \<Rightarrow> state \<Rightarrow> state option" where
  "do_finish w s =
     (if w < length (workers s) \<and> pc (workers s ! w) = Returning then
        Some (set_worker w \<lparr>pc = Ended, defers = []\<rparr>
                (s\<lparr>open_res := filter (\<lambda>r. r \<notin> set (defers (workers s ! w))) (open_res s)\<rparr>))
      else None)"

text \<open>
  \<open>Return\<close>: the caller's last loop is over; it returns \<open>nil\<close> (line 228), and the deferred
  function of lines 137-141 closes \<open>complete\<close> if it is not \<open>nil\<close> (closing a closed channel
  panics).
\<close>

definition do_return :: "env \<Rightarrow> bool \<Rightarrow> state \<Rightarrow> state option" where
  "do_return e complete s =
     (case main_thread s of
        Waiting i \<Rightarrow>
          if i < DownloadThreads e then None
          else if complete then
            (if closes s > 0 then Some (s\<lparr>crashed := Some PanicClosedChannel\<rparr>)
             else Some (s\<lparr>main_thread := Returned None, closes := Suc (closes s)\<rparr>))
          else Some (s\<lparr>main_thread := Returned None\<rparr>)
      | Returned r \<Rightarrow> None)"

text \<open>One action; \<open>None\<close> when the action cannot happen in the state. A stopped process
  does nothing.\<close>

fun step :: "env \<Rightarrow> globals \<Rightarrow> DownloadJob list \<Rightarrow> bool \<Rightarrow> action \<Rightarrow> state \<Rightarrow> state option" where
  "step e g jobs complete a s =
     (if crashed s \<noteq> None then None
      else
        (case a of
           Take w \<Rightarrow> do_take jobs w s
         | Process w x \<Rightarrow> do_process e g jobs w x s
         | Deliver w \<Rightarrow> do_deliver e g complete w s
         | Exhaust w \<Rightarrow> do_exhaust w s
         | Signal w \<Rightarrow> do_signal e w s
         | Finish w \<Rightarrow> do_finish w s
         | CloseC \<Rightarrow> do_close_c jobs s
         | Return \<Rightarrow> do_return e complete s))"

fun run :: "env \<Rightarrow> globals \<Rightarrow> DownloadJob list \<Rightarrow> bool \<Rightarrow> action list \<Rightarrow> state \<Rightarrow> state option" where
  "run e g jobs complete [] s = Some s"
| "run e g jobs complete (a # as) s =
     (case step e g jobs complete a s of
        None \<Rightarrow> None
      | Some s' \<Rightarrow> run e g jobs complete as s')"

text \<open>
  The start of \<open>Download\<close> (lines 135-221), \<open>complete\<close> telling whether the channel argument
  is not \<open>nil\<close>: with no job it returns \<open>nil\<close> at once and its deferred function closes the
  channel; otherwise it starts the producer and \<open>DownloadThreads\<close> workers (none when the
  setting is not positive) and enters its last loop. The goroutines are taken as started
  together: one that has not run yet is one the schedule has not picked yet.
\<close>

definition Download_start :: "env \<Rightarrow> DownloadJob list \<Rightarrow> bool \<Rightarrow> state" where
  "Download_start e jobs complete =
     (if length jobs = 0 then
        \<lparr>prod = NotStarted, workers = [], main_thread = Returned None,
         sent = [], closes = (if complete then 1 else 0), printed = [], calls = [],
         open_res = [], finished = [], crashed = None\<rparr>
      else
        \<lparr>prod = Sending 0,
         workers = replicate (nat (DownloadThreads e)) \<lparr>pc = AtRange, defers = []\<rparr>,
         main_thread = Waiting 0,
         sent = [], closes = 0, printed = [], calls = [],
         open_res = [], finished = [], crashed = None\<rparr>)"

text \<open>\<open>Download\<close> under a schedule: the state the schedule leads to, if it can be run.\<close>

definition Download :: "env \<Rightarrow> globals \<Rightarrow> DownloadJob list \<Rightarrow> bool \<Rightarrow> action list \<Rightarrow> state option" where
  "Download e g jobs complete sched = run e g jobs complete sched (Download_start e jobs complete)"

text \<open>A job has reached the verify stage when it has called the checksum verifier.\<close>

fun is_validate_call :: "call \<Rightarrow> bool" where
  "is_validate_call (ValidateFileChecksum path digest alg) = True"
| "is_validate_call (HttpGet url) = False"
| "is_validate_call (OsCreate path err) = False"
| "is_validate_call (IoCopy path bytes err) = False"

text \<open>The worker an action belongs to, if it is a worker's action.\<close>

fun actor :: "action \<Rightarrow> nat option" where
  "actor (Take w) = Some w"
| "actor (Process w x) = Some w"
| "actor (Deliver w) = Some w"
| "actor (Exhaust w) = Some w"
| "actor (Signal w) = Some w"
| "actor (Finish w) = Some w"
| "actor CloseC = None"
| "actor Return = None"

text \<open>
  The error that lines 168-206 assign to a job, read off the answers of the outside world
  alone: that of the first stage that fails, and none when every stage succeeds.
\<close>

definition stage_failure :: "env \<Rightarrow> ext \<Rightarrow> error option" where
  "stage_failure e x =
     (case get_result x of
        Inl err \<Rightarrow> Some err
      | Inr resp \<Rightarrow>
          if StatusCode resp \<noteq> StatusOK then Some (FmtErrorf (''Bad status: '' @ Status resp))
          else
            (case create_result x of
               Some err \<Rightarrow> Some err
             | None \<Rightarrow>
                 (case snd (copy_result x) of
                    Some err \<Rightarrow> Some err
                  | None \<Rightarrow>
                      (case validate_result x of
                         None \<Rightarrow> None
                       | Some err \<Rightarrow>
                           if err = ErrChecksumMismatch then Some err
                           else Some (FmtErrorf (''Checksum validation error: ''
                                                   @ Error_text e err))))))"

subsection \<open>Invariants of the engine\<close>

text \<open>The jobs that workers hold, the workers past their loop, and those that have signalled.\<close>

fun holds :: "worker_pc \<Rightarrow> DownloadJob list" where
  "holds (GotJob j) = [j]"
| "holds (AtJobDone j) = [j]"
| "holds AtRange = []"
| "holds AtDone = []"
| "holds Returning = []"
| "holds Ended = []"

definition held :: "worker list \<Rightarrow> DownloadJob list" where
  "held ws = concat (map (\<lambda>w. holds (pc w)) ws)"

fun past_loop :: "worker_pc \<Rightarrow> bool" where
  "past_loop AtDone = True"
| "past_loop Returning = True"
| "past_loop Ended = True"
| "past_loop AtRange = False"
| "past_loop (GotJob j) = False"
| "past_loop (AtJobDone j) = False"

fun signalled :: "worker_pc \<Rightarrow> bool" where
  "signalled Returning = True"
| "signalled Ended = True"
| "signalled AtDone = False"
| "signalled AtRange = False"
| "signalled (GotJob j) = False"
| "signalled (AtJobDone j) = False"

text \<open>The number of jobs the producer has handed to workers.\<close>

fun handed :: "DownloadJob list \<Rightarrow> producer \<Rightarrow> nat" where
  "handed jobs NotStarted = 0"
| "handed jobs (Sending i) = i"
| "handed jobs Closed = length jobs"

text \<open>The job the producer sends at iteration \<open>i\<close>, and a job as a worker may deliver it.\<close>

definition tagged :: "DownloadJob list \<Rightarrow> nat \<Rightarrow> DownloadJob" where
  "tagged jobs i = (jobs ! i)\<lparr>Index := int i + 1\<rparr>"

definition processed :: "env \<Rightarrow> DownloadJob list \<Rightarrow> DownloadJob \<Rightarrow> bool" where
  "processed e jobs d \<longleftrightarrow>
     (\<exists>i x. i < length jobs \<and> d = job_out (fetch_persist_verify e x (tagged jobs i)))"

text \<open>The lines \<open>Errorf\<close> writes for a job at line 215.\<close>

definition error_lines :: "env \<Rightarrow> globals \<Rightarrow> DownloadJob \<Rightarrow> out_event list" where
  "error_lines e g job =
     (case Errorf e g (Error job) (failure_text job) of Inl h \<Rightarrow> [] | Inr evs \<Rightarrow> evs)"

definition inv_workers :: "env \<Rightarrow> state \<Rightarrow> bool" where
  "inv_workers e s \<longleftrightarrow>
     crashed s = None
     \<and> length (workers s) = (if prod s = NotStarted then 0 else nat (DownloadThreads e))"

definition inv_handed :: "DownloadJob list \<Rightarrow> state \<Rightarrow> bool" where
  "inv_handed jobs s \<longleftrightarrow>
     (prod s = NotStarted \<longrightarrow> jobs = []) \<and>
     handed jobs (prod s) \<le> length jobs \<and>
     mset (map Index (finished s)) + mset (map Index (held (workers s)))
       = mset (map (\<lambda>k. int k + 1) [0..<handed jobs (prod s)])"

definition inv_main :: "env \<Rightarrow> bool \<Rightarrow> state \<Rightarrow> bool" where
  "inv_main e complete s \<longleftrightarrow>
     (case main_thread s of
        Waiting i \<Rightarrow>
          i = int (length (filter (\<lambda>w. signalled (pc w)) (workers s)))
          \<and> closes s = 0 \<and> prod s \<noteq> NotStarted
      | Returned r \<Rightarrow>
          r = None \<and> closes s = (if complete then 1 else 0)
          \<and> (\<forall>w < length (workers s). signalled (pc (workers s ! w))))"

definition inv_closed :: "state \<Rightarrow> bool" where
  "inv_closed s \<longleftrightarrow>
     (\<forall>w < length (workers s). past_loop (pc (workers s ! w)) \<longrightarrow> prod s = Closed)"

definition inv_sent :: "bool \<Rightarrow> state \<Rightarrow> bool" where
  "inv_sent complete s \<longleftrightarrow> sent s = (if complete then finished s else [])"

definition inv_prov :: "env \<Rightarrow> DownloadJob list \<Rightarrow> state \<Rightarrow> bool" where
  "inv_prov e jobs s \<longleftrightarrow>
     (\<forall>d \<in> set (finished s). processed e jobs d) \<and>
     (\<forall>w < length (workers s).
        (\<forall>j. pc (workers s ! w) = GotJob j \<longrightarrow> (\<exists>i < length jobs. j = tagged jobs i)) \<and>
        (\<forall>j. pc (workers s ! w) = AtJobDone j \<longrightarrow> processed e jobs j))"

definition inv_printed :: "env \<Rightarrow> globals \<Rightarrow> bool \<Rightarrow> state \<Rightarrow> bool" where
  "inv_printed e g complete s \<longleftrightarrow>
     filter is_error_line (printed s)
       = (if complete then []
          else concat (map (error_lines e g) (filter (\<lambda>j. Error j \<noteq> None) (finished s))))
     \<and> (\<not> DebugMode e \<longrightarrow> filter is_error_line (printed s) = printed s)"

definition inv :: "env \<Rightarrow> globals \<Rightarrow> DownloadJob list \<Rightarrow> bool \<Rightarrow> state \<Rightarrow> bool" where
  "inv e g jobs complete s \<longleftrightarrow>
     inv_workers e s \<and> inv_handed jobs s \<and> inv_main e complete s \<and> inv_closed s
     \<and> inv_sent complete s \<and> inv_prov e jobs s \<and> inv_printed e g complete s"

text \<open>A measure that every action decreases.\<close>

fun pc_weight :: "worker_pc \<Rightarrow> nat" where
  "pc_weight (GotJob j) = 5"
| "pc_weight (AtJobDone j) = 4"
| "pc_weight AtRange = 3"
| "pc_weight AtDone = 2"
| "pc_weight Returning = 1"
| "pc_weight Ended = 0"

fun prod_weight :: "DownloadJob list \<Rightarrow> producer \<Rightarrow> nat" where
  "prod_weight jobs (Sending i) = 3 * (length jobs - i) + 1"
| "prod_weight jobs Closed = 0"
| "prod_weight jobs NotStarted = 0"

fun main_weight :: "main_pc \<Rightarrow> nat" where
  "main_weight (Waiting i) = 1"
| "main_weight (Returned r) = 0"

definition weight :: "DownloadJob list \<Rightarrow> state \<Rightarrow> nat" where
  "weight jobs s =
     prod_weight jobs (prod s) + sum_list (map (\<lambda>w. pc_weight (pc w)) (workers s))
       + main_weight (main_thread s)"

subsection \<open>Sample inputs\<close>

text \<open>Two jobs, and answers of the outside world: all well, and a 404.\<close>

definition job_a :: DownloadJob where
  "job_a = \<lparr>Label = ''a.rpm'', URL = ''http://mirror/a.rpm'', Size = 10, Path = ''/repo/a.rpm'',
            Checksum = ''0a'', ChecksumType = ''sha256'', Index = 0, Error = None\<rparr>"

definition job_b :: DownloadJob where
  "job_b = \<lparr>Label = ''b.rpm'', URL = ''http://mirror/b.rpm'', Size = 20, Path = ''/repo/b.rpm'',
            Checksum = ''0b'', ChecksumType = ''sha256'', Index = 0, Error = None\<rparr>"

definition ext_ok :: ext where
  "ext_ok = \<lparr>get_result = Inr \<lparr>StatusCode = 200, Status = ''200 OK''\<rparr>, create_result = None,
             copy_result = (''data'', None), validate_result = None\<rparr>"

definition ext_404 :: ext where
  "ext_404 = \<lparr>get_result = Inr \<lparr>StatusCode = 404, Status = ''404 Not Found''\<rparr>,
              create_result = None, copy_result = ([], None), validate_result = None\<rparr>"

section \<open>Properties of \<open>urljoin\<close>\<close>

lemma join_segment_nonempty: "join_segment acc s \<noteq> []"
  by (simp add: join_segment_def)

lemma TrimRight_no_trailing: "TrimRight s cutset \<noteq> [] \<Longrightarrow> last (TrimRight s cutset) \<notin> set cutset"
proof -
  assume ne: "TrimRight s cutset \<noteq> []"
  let ?d = "dropWhile (\<lambda>c. c \<in> set cutset) (rev s)"
  from ne have d: "?d \<noteq> []" by (simp add: TrimRight_def)
  then have "hd ?d \<notin> set cutset" by (rule hd_dropWhile)
  with d show ?thesis by (simp add: TrimRight_def last_rev)
qed

lemma TrimLeft_no_leading: "TrimLeft s cutset \<noteq> [] \<Longrightarrow> hd (TrimLeft s cutset) \<notin> set cutset"
  unfolding TrimLeft_def by (rule hd_dropWhile)

lemma urljoin_loop_nonempty:
  "url \<noteq> [] \<Longrightarrow> urljoin_loop url v = foldl join_segment url (filter (\<lambda>s. s \<noteq> []) v)"
  by (induction v arbitrary: url) (auto simp: urljoin_step_def join_segment_def)

lemma urljoin_loop_empty:
  "urljoin_loop [] v = urljoin_first_kept (dropWhile (\<lambda>s. s = []) v)"
  by (induction v) (auto simp: urljoin_step_def urljoin_loop_nonempty)

text \<open>
  C10, as stated: \<open>urljoin\<close> keeps the first segment unchanged, even if it is empty, and
  appends every later non-empty segment after one separator. This fails when the first
  segment is empty: the loop tests the accumulator, not the position, so \<open>urljoin("", "a")\<close>
  is \<open>"a"\<close>, whereas the stated reading gives \<open>"/a"\<close>.
\<close>

theorem urljoin_empty_first_counterexample:
  "urljoin [[], ''a''] = ''a'' \<and> urljoin_first_kept [[], ''a''] = ''/a''
   \<and> urljoin [[], ''a''] \<noteq> urljoin_first_kept [[], ''a'']"
  by (simp add: urljoin_def urljoin_step_def join_segment_def TrimLeft_def TrimRight_def)

text \<open>
  C10, amended: for every list of segments, \<open>urljoin\<close> skips the leading empty segments,
  returns the first non-empty segment unchanged, followed by each later non-empty segment
  joined with one \<open>/\<close> (trailing slashes of the accumulated prefix and leading slashes of
  the appended segment being stripped at each join); later empty segments are skipped, and
  a list with no non-empty segment (the empty list included) yields the empty string.
\<close>

theorem urljoin_skips_leading_empty:
  "urljoin v = urljoin_first_kept (dropWhile (\<lambda>s. s = []) v)"
  by (simp add: urljoin_def urljoin_loop_empty)

section \<open>The log file handle\<close>

lemma wrote_inv: "log_inv p \<Longrightarrow> wrote p r = Inr p' \<Longrightarrow> log_inv p'"
  by (auto simp: wrote_def log_inv_def split: sum.splits)

lemma InitLogFile_inv: "log_inv p \<Longrightarrow> InitLogFile e opened p = Inr p' \<Longrightarrow> log_inv p'"
  by (auto simp: InitLogFile_def log_inv_def PanicOn_def split: if_splits sum.splits option.splits)

lemma CloseLogFile_noop: "logfileHandle (vars p) = None \<Longrightarrow> CloseLogFile closed p = Inr p"
  by (simp add: CloseLogFile_def)

lemma log_call_exec_inv: "log_inv p \<Longrightarrow> log_call_exec c p = Inr p' \<Longrightarrow> log_inv p'"
proof (cases c)
  case (CallCloseLogFile closed)
  assume "log_inv p" "log_call_exec c p = Inr p'"
  with CallCloseLogFile show ?thesis by (simp add: CloseLogFile_noop log_inv_def)
qed (auto elim: wrote_inv InitLogFile_inv)

lemma log_calls_exec_inv: "log_inv p \<Longrightarrow> log_calls_exec cs p = Inr p' \<Longrightarrow> log_inv p'"
proof (induction cs arbitrary: p)
  case Nil
  then show ?case by simp
next
  case (Cons c cs)
  then show ?case by (auto split: sum.splits dest: log_call_exec_inv)
qed

lemma log_inv_init: "log_inv process_init"
  by (simp add: log_inv_def process_init_def globals_init_def)

text \<open>
  C9: in every state the process reaches from its start through calls of the logging
  functions of io.go, \<open>logfileHandle\<close> is \<open>nil\<close> (\<open>InitLogFile\<close> binds the opened file to a
  local and to the logger only), so \<open>CloseLogFile\<close> changes nothing whatever its close would
  return, and the file of a configured logger is still among the open files: it is never
  closed.
\<close>

theorem logfileHandle_always_nil:
  assumes "log_calls_exec cs process_init = Inr p"
  shows "logfileHandle (vars p) = None
         \<and> (\<forall>closed. CloseLogFile closed p = Inr p)
         \<and> (\<forall>f. logger (vars p) = Some f \<longrightarrow> f \<in> set (open_files p))"
proof -
  have "log_inv p" using log_inv_init assms by (rule log_calls_exec_inv)
  then show ?thesis by (auto simp: log_inv_def CloseLogFile_noop)
qed

theorem logfileHandle_always_nil_witness:
  "log_calls_exec [CallInitLogFile env0 (Inr 3), CallCloseLogFile None] process_init
     = Inr \<lparr>vars = \<lparr>logfileHandle = None, logger = Some 3\<rparr>, open_files = [3], written = []\<rparr>
   \<and> logfileHandle (vars \<lparr>vars = \<lparr>logfileHandle = None, logger = Some 3\<rparr>, open_files = [3], written = []\<rparr>) = None
   \<and> CloseLogFile None \<lparr>vars = \<lparr>logfileHandle = None, logger = Some 3\<rparr>, open_files = [3], written = []\<rparr>
       = Inr \<lparr>vars = \<lparr>logfileHandle = None, logger = Some 3\<rparr>, open_files = [3], written = []\<rparr>
   \<and> (3::nat) \<in> set (open_files \<lparr>vars = \<lparr>logfileHandle = None, logger = Some 3\<rparr>, open_files = [3], written = []\<rparr>)"
proof -
  have run: "log_calls_exec [CallInitLogFile env0 (Inr 3), CallCloseLogFile None] process_init
     = Inr \<lparr>vars = \<lparr>logfileHandle = None, logger = Some 3\<rparr>, open_files = [3], written = []\<rparr>"
    by (simp add: InitLogFile_def CloseLogFile_def env0_def process_init_def globals_init_def PanicOn_def)
  from logfileHandle_always_nil [OF run] run show ?thesis by simp
qed

section \<open>Properties of the download engine\<close>

subsection \<open>Lists of workers, and the printing functions\<close>

lemma held_update:
  "w < length ws \<Longrightarrow>
   mset (map Index (held (ws[w := v]))) + mset (map Index (holds (pc (ws ! w))))
     = mset (map Index (held ws)) + mset (map Index (holds (pc v)))"
proof (induction ws arbitrary: w)
  case Nil
  then show ?case by simp
next
  case (Cons a ws)
  then show ?case by (cases w) (auto simp: held_def)
qed

lemma filter_update_length:
  "w < length ws \<Longrightarrow>
   length (filter P (ws[w := v])) + (if P (ws ! w) then 1 else 0)
     = length (filter P ws) + (if P v then 1 else 0)"
proof (induction ws arbitrary: w)
  case Nil
  then show ?case by simp
next
  case (Cons a ws)
  then show ?case by (cases w) auto
qed

lemma sum_list_update_weight:
  "w < length ws \<Longrightarrow>
   sum_list (map f (ws[w := v])) + f (ws ! w) = sum_list (map f ws) + (f v :: nat)"
proof (induction ws arbitrary: w)
  case Nil
  then show ?case by simp
next
  case (Cons a ws)
  then show ?case by (cases w) auto
qed

lemma Dprintf_ok: "\<exists>evs. Dprintf e g msg = Inr evs \<and> filter is_error_line evs = [] \<and> (\<not> DebugMode e \<longrightarrow> evs = [])"
  by (auto simp: Dprintf_def Logf_def LOG_CAT_DEBUG_def LOG_CAT_ERROR_def LOG_CAT_WARN_def LOG_CAT_INFO_def split: option.splits)

lemma Errorf_ok: "\<exists>ev. Errorf e g (Some er) msg = Inr [ev] \<and> is_error_line ev"
  by (auto simp: Errorf_def Logf_def LOG_CAT_ERROR_def split: option.splits)

subsection \<open>The actions, case by case\<close>

lemmas do_defs = do_take_def do_process_def do_deliver_def do_exhaust_def do_signal_def
  do_finish_def do_close_c_def do_return_def

lemma not_signalled_waiting:
  assumes "inv_main e complete s" "w < length (workers s)" "\<not> signalled (pc (workers s ! w))"
  shows "\<exists>i. main_thread s = Waiting i \<and> closes s = 0 \<and> prod s \<noteq> NotStarted"
proof (cases "main_thread s")
  case (Waiting i)
  with assms show ?thesis by (simp add: inv_main_def)
next
  case (Returned r)
  with assms show ?thesis by (simp add: inv_main_def)
qed

lemma step_cases [consumes 3, case_names take process deliver_chan deliver_log deliver_quiet
    exhaust signal finish close_c return]:
  assumes "inv_workers e s" "inv_main e complete s" "step e g jobs complete a s = Some s'"
  obtains
    (take) w i where "a = Take w" "prod s = Sending i" "i < length jobs"
      "w < length (workers s)" "pc (workers s ! w) = AtRange"
      "s' = s\<lparr>prod := Sending (Suc i),
              workers := (workers s)[w := (workers s ! w)\<lparr>pc := GotJob (tagged jobs i)\<rparr>]\<rparr>"
  | (process) w x job evs where "a = Process w x" "w < length (workers s)"
      "pc (workers s ! w) = GotJob job" "filter is_error_line evs = []"
      "\<not> DebugMode e \<longrightarrow> evs = []"
      "s' = s\<lparr>printed := printed s @ evs,
              calls := calls s @ map (Pair (Index job)) (calls_made (fetch_persist_verify e x job)),
              open_res := open_res s @ deferred (fetch_persist_verify e x job),
              workers := (workers s)[w := \<lparr>pc = AtJobDone (job_out (fetch_persist_verify e x job)),
                 defers = defers (workers s ! w) @ deferred (fetch_persist_verify e x job)\<rparr>]\<rparr>"
  | (deliver_chan) w job where "a = Deliver w" "w < length (workers s)"
      "pc (workers s ! w) = AtJobDone job" "complete" "closes s = 0"
      "s' = s\<lparr>finished := finished s @ [job],
              workers := (workers s)[w := (workers s ! w)\<lparr>pc := AtRange\<rparr>],
              sent := sent s @ [job]\<rparr>"
  | (deliver_log) w job ev where "a = Deliver w" "w < length (workers s)"
      "pc (workers s ! w) = AtJobDone job" "\<not> complete" "Error job \<noteq> None"
      "error_lines e g job = [ev]" "is_error_line ev"
      "s' = s\<lparr>finished := finished s @ [job],
              workers := (workers s)[w := (workers s ! w)\<lparr>pc := AtRange\<rparr>],
              printed := printed s @ [ev]\<rparr>"
  | (deliver_quiet) w job where "a = Deliver w" "w < length (workers s)"
      "pc (workers s ! w) = AtJobDone job" "\<not> complete" "Error job = None"
      "s' = s\<lparr>finished := finished s @ [job],
              workers := (workers s)[w := (workers s ! w)\<lparr>pc := AtRange\<rparr>]\<rparr>"
  | (exhaust) w where "a = Exhaust w" "w < length (workers s)"
      "pc (workers s ! w) = AtRange" "prod s = Closed"
      "s' = s\<lparr>workers := (workers s)[w := (workers s ! w)\<lparr>pc := AtDone\<rparr>]\<rparr>"
  | (signal) w i where "a = Signal w" "w < length (workers s)"
      "pc (workers s ! w) = AtDone" "main_thread s = Waiting i" "i < DownloadThreads e"
      "s' = s\<lparr>main_thread := Waiting (i + 1),
              workers := (workers s)[w := (workers s ! w)\<lparr>pc := Returning\<rparr>]\<rparr>"
  | (finish) w where "a = Finish w" "w < length (workers s)"
      "pc (workers s ! w) = Returning"
      "s' = s\<lparr>open_res := filter (\<lambda>r. r \<notin> set (defers (workers s ! w))) (open_res s),
              workers := (workers s)[w := \<lparr>pc = Ended, defers = []\<rparr>]\<rparr>"
  | (close_c) i where "a = CloseC" "prod s = Sending i" "\<not> i < length jobs"
      "s' = s\<lparr>prod := Closed\<rparr>"
  | (return) i where "a = Return" "main_thread s = Waiting i" "\<not> i < DownloadThreads e"
      "closes s = 0"
      "s' = s\<lparr>main_thread := Returned None, closes := (if complete then 1 else 0)\<rparr>"
proof -
  from assms(3) have live: "crashed s = None" by (simp split: if_splits)
  show thesis
  proof (cases a)
    case (Take w)
    from assms(3) live Take obtain i where i: "prod s = Sending i" "i < length jobs"
      "w < length (workers s)" "pc (workers s ! w) = AtRange"
      by (auto simp: do_take_def split: producer.splits if_splits)
    with assms(3) live Take show thesis
      by (intro take[of w i]) (auto simp: do_take_def set_worker_def tagged_def)
  next
    case (Process w x)
    from assms(3) live Process obtain job where
      w: "w < length (workers s)" and j: "pc (workers s ! w) = GotJob job"
      by (auto simp: do_process_def split: if_splits worker_pc.splits)
    obtain evs where d: "Dprintf e g (progress_text e jobs job) = Inr evs"
      and evs: "filter is_error_line evs = []" "\<not> DebugMode e \<longrightarrow> evs = []"
      using Dprintf_ok by blast
    from assms(3) live Process w j d show thesis
      by (intro process[of w x job evs]) (auto simp: do_process_def set_worker_def Let_def evs)
  next
    case (Deliver w)
    from assms(3) live Deliver obtain job where
      w: "w < length (workers s)" and j: "pc (workers s ! w) = AtJobDone job"
      by (auto simp: do_deliver_def split: if_splits worker_pc.splits)
    from j have "\<not> signalled (pc (workers s ! w))" by simp
    with assms(2) w have c0: "closes s = 0" using not_signalled_waiting by blast
    show thesis
    proof (cases complete)
      case True
      with assms(3) live Deliver w j c0 show thesis
        by (intro deliver_chan[of w job]) (auto simp: do_deliver_def set_worker_def Let_def)
    next
      case False
      show thesis
      proof (cases "Error job")
        case None
        with assms(3) live Deliver w j False show thesis
          by (intro deliver_quiet[of w job]) (auto simp: do_deliver_def set_worker_def Let_def)
      next
        case (Some er)
        obtain ev where ev: "Errorf e g (Some er) (failure_text job) = Inr [ev]" "is_error_line ev"
          using Errorf_ok by blast
        with assms(3) live Deliver w j False Some show thesis
          by (intro deliver_log[of w job ev]) (auto simp: do_deliver_def set_worker_def Let_def error_lines_def)
      qed
    qed
  next
    case (Exhaust w)
    with assms(3) live show thesis
      by (intro exhaust[of w]) (auto simp: do_exhaust_def set_worker_def split: if_splits)
  next
    case (Signal w)
    with assms(3) live show thesis
      by (cases "main_thread s")
         (auto simp: do_signal_def set_worker_def split: if_splits intro: signal[of w])
  next
    case (Finish w)
    with assms(3) live show thesis
      by (intro finish[of w]) (auto simp: do_finish_def set_worker_def split: if_splits)
  next
    case CloseC
    with assms(3) live show thesis
      by (cases "prod s") (auto simp: do_close_c_def split: if_splits intro: close_c)
  next
    case Return
    with assms(2,3) live show thesis
      by (cases "main_thread s")
         (auto simp: do_return_def inv_main_def split: if_splits intro: return)
  qed
qed

subsection \<open>Every action preserves the invariants\<close>

lemma step_workers:
  assumes "inv_workers e s" "inv_main e complete s" "step e g jobs complete a s = Some s'"
  shows "inv_workers e s'"
  using assms by (cases rule: step_cases) (use assms(1) in \<open>auto simp: inv_workers_def\<close>)

lemma step_closed:
  assumes "inv_workers e s" "inv_main e complete s" "inv_closed s"
    "step e g jobs complete a s = Some s'"
  shows "inv_closed s'"
  using assms(1,2,4,3)
  by (cases rule: step_cases)
     (use assms(3) in \<open>auto simp: inv_closed_def nth_list_update\<close>)

lemma step_sent:
  assumes "inv_workers e s" "inv_main e complete s" "inv_sent complete s"
    "step e g jobs complete a s = Some s'"
  shows "inv_sent complete s'"
  using assms(1,2,4,3)
  by (cases rule: step_cases) (use assms(3) in \<open>auto simp: inv_sent_def\<close>)

lemma step_printed:
  assumes "inv_workers e s" "inv_main e complete s" "inv_printed e g complete s"
    "step e g jobs complete a s = Some s'"
  shows "inv_printed e g complete s'"
  using assms(1,2,4,3)
  by (cases rule: step_cases) (use assms(3) in \<open>auto simp: inv_printed_def\<close>)

lemma step_prov:
  assumes "inv_workers e s" "inv_main e complete s" "inv_prov e jobs s"
    "step e g jobs complete a s = Some s'"
  shows "inv_prov e jobs s'"
  using assms(1,2,4,3)
proof (cases rule: step_cases)
  case (take w i)
  then show ?thesis using assms(3)
    by (auto simp: inv_prov_def nth_list_update)
next
  case (process w x job evs)
  from assms(3) process(2,3) obtain i where "i < length jobs" "job = tagged jobs i"
    unfolding inv_prov_def by blast
  then have "processed e jobs (job_out (fetch_persist_verify e x job))"
    unfolding processed_def by blast
  with process assms(3) show ?thesis
    by (auto simp: inv_prov_def nth_list_update)
next
  case (deliver_chan w job)
  from assms(3) deliver_chan(2,3) have "processed e jobs job"
    unfolding inv_prov_def by blast
  with deliver_chan assms(3) show ?thesis
    by (auto simp: inv_prov_def nth_list_update)
next
  case (deliver_log w job ev)
  from assms(3) deliver_log(2,3) have "processed e jobs job"
    unfolding inv_prov_def by blast
  with deliver_log assms(3) show ?thesis
    by (auto simp: inv_prov_def nth_list_update)
next
  case (deliver_quiet w job)
  from assms(3) deliver_quiet(2,3) have "processed e jobs job"
    unfolding inv_prov_def by blast
  with deliver_quiet assms(3) show ?thesis
    by (auto simp: inv_prov_def nth_list_update)
qed (use assms(3) in \<open>auto simp: inv_prov_def nth_list_update\<close>)

lemma Index_fetch_persist_verify [simp]:
  "Index (job_out (fetch_persist_verify e x job)) = Index job"
  by (simp add: fetch_persist_verify_def validate_checksum_def split: sum.splits option.splits prod.splits)

lemma step_handed:
  assumes "inv_workers e s" "inv_main e complete s" "inv_handed jobs s"
    "step e g jobs complete a s = Some s'"
  shows "inv_handed jobs s'"
  using assms(1,2,4)
proof (cases rule: step_cases)
  case (take w i)
  from held_update[OF take(4), of "(workers s ! w)\<lparr>pc := GotJob (tagged jobs i)\<rparr>"] take(5)
  have "mset (map Index (held ((workers s)[w := (workers s ! w)\<lparr>pc := GotJob (tagged jobs i)\<rparr>])))
        = add_mset (int i + 1) (mset (map Index (held (workers s))))"
    by (simp add: tagged_def)
  with take assms(3) show ?thesis by (simp add: inv_handed_def)
next
  case (process w x job evs)
  from held_update[OF process(2), of "\<lparr>pc = AtJobDone (job_out (fetch_persist_verify e x job)),
      defers = defers (workers s ! w) @ deferred (fetch_persist_verify e x job)\<rparr>"] process(3)
  have "mset (map Index (held ((workers s)[w := \<lparr>pc = AtJobDone (job_out (fetch_persist_verify e x job)),
      defers = defers (workers s ! w) @ deferred (fetch_persist_verify e x job)\<rparr>])))
        = mset (map Index (held (workers s)))"
    by simp
  with process assms(3) show ?thesis by (simp add: inv_handed_def)
next
  case (deliver_chan w job)
  from held_update[OF deliver_chan(2), of "(workers s ! w)\<lparr>pc := AtRange\<rparr>"] deliver_chan(3)
  have "mset (map Index (held (workers s)))
        = add_mset (Index job) (mset (map Index (held ((workers s)[w := (workers s ! w)\<lparr>pc := AtRange\<rparr>]))))"
    by simp
  with deliver_chan assms(3) show ?thesis by (simp add: inv_handed_def)
next
  case (deliver_log w job ev)
  from held_update[OF deliver_log(2), of "(workers s ! w)\<lparr>pc := AtRange\<rparr>"] deliver_log(3)
  have "mset (map Index (held (workers s)))
        = add_mset (Index job) (mset (map Index (held ((workers s)[w := (workers s ! w)\<lparr>pc := AtRange\<rparr>]))))"
    by simp
  with deliver_log assms(3) show ?thesis by (simp add: inv_handed_def)
next
  case (deliver_quiet w job)
  from held_update[OF deliver_quiet(2), of "(workers s ! w)\<lparr>pc := AtRange\<rparr>"] deliver_quiet(3)
  have "mset (map Index (held (workers s)))
        = add_mset (Index job) (mset (map Index (held ((workers s)[w := (workers s ! w)\<lparr>pc := AtRange\<rparr>]))))"
    by simp
  with deliver_quiet assms(3) show ?thesis by (simp add: inv_handed_def)
next
  case (exhaust w)
  from held_update[OF exhaust(2), of "(workers s ! w)\<lparr>pc := AtDone\<rparr>"] exhaust(3)
  have "mset (map Index (held ((workers s)[w := (workers s ! w)\<lparr>pc := AtDone\<rparr>])))
        = mset (map Index (held (workers s)))"
    by simp
  with exhaust assms(3) show ?thesis by (simp add: inv_handed_def)
next
  case (signal w i)
  from held_update[OF signal(2), of "(workers s ! w)\<lparr>pc := Returning\<rparr>"] signal(3)
  have "mset (map Index (held ((workers s)[w := (workers s ! w)\<lparr>pc := Returning\<rparr>])))
        = mset (map Index (held (workers s)))"
    by simp
  with signal assms(3) show ?thesis by (simp add: inv_handed_def)
next
  case (finish w)
  from held_update[OF finish(2), of "\<lparr>pc = Ended, defers = []\<rparr>"] finish(3)
  have "mset (map Index (held ((workers s)[w := \<lparr>pc = Ended, defers = []\<rparr>])))
        = mset (map Index (held (workers s)))"
    by simp
  with finish assms(3) show ?thesis by (simp add: inv_handed_def)
next
  case (close_c i)
  with assms(3) show ?thesis by (simp add: inv_handed_def)
next
  case (return i)
  with assms(3) show ?thesis by (simp add: inv_handed_def)
qed

lemma filter_all:
  assumes "t \<le> int (length (filter P ws))" "length ws = nat t" "w < length ws"
  shows "P (ws ! w)"
proof (rule ccontr)
  assume "\<not> P (ws ! w)"
  with assms(3) have "length (filter P ws) < length ws"
    using length_filter_less[of "ws ! w" ws P] by simp
  with assms(1,2) show False by linarith
qed

lemma signalled_count_same:
  assumes "w < length ws" "signalled (pc v) = signalled (pc (ws ! w))"
  shows "length (filter (\<lambda>w. signalled (pc w)) (ws[w := v]))
         = length (filter (\<lambda>w. signalled (pc w)) ws)"
  using filter_update_length[OF assms(1), of "\<lambda>w. signalled (pc w)" v] assms(2) by simp

lemma step_main:
  assumes "inv_workers e s" "inv_main e complete s"
    "step e g jobs complete a s = Some s'"
  shows "inv_main e complete s'"
  using assms
proof (cases rule: step_cases)
  case (signal w i)
  from filter_update_length[OF signal(2), of "\<lambda>w. signalled (pc w)" "(workers s ! w)\<lparr>pc := Returning\<rparr>"] signal(3)
  have "length (filter (\<lambda>w. signalled (pc w)) ((workers s)[w := (workers s ! w)\<lparr>pc := Returning\<rparr>]))
        = Suc (length (filter (\<lambda>w. signalled (pc w)) (workers s)))"
    by simp
  with signal assms(2) show ?thesis by (simp add: inv_main_def)
next
  case (return i)
  with assms(1,2) have "\<forall>w < length (workers s). signalled (pc (workers s ! w))"
    using filter_all[of "DownloadThreads e" "\<lambda>w. signalled (pc w)" "workers s"]
    by (auto simp: inv_main_def inv_workers_def)
  with return show ?thesis by (simp add: inv_main_def)
next
  case (take w i)
  with assms(2) not_signalled_waiting[OF assms(2) take(4)] show ?thesis
    by (auto simp: inv_main_def signalled_count_same)
next
  case (process w x job evs)
  with assms(2) not_signalled_waiting[OF assms(2) process(2)] show ?thesis
    by (auto simp: inv_main_def signalled_count_same)
next
  case (deliver_chan w job)
  with assms(2) not_signalled_waiting[OF assms(2) deliver_chan(2)] show ?thesis
    by (auto simp: inv_main_def signalled_count_same)
next
  case (deliver_log w job ev)
  with assms(2) not_signalled_waiting[OF assms(2) deliver_log(2)] show ?thesis
    by (auto simp: inv_main_def signalled_count_same)
next
  case (deliver_quiet w job)
  with assms(2) not_signalled_waiting[OF assms(2) deliver_quiet(2)] show ?thesis
    by (auto simp: inv_main_def signalled_count_same)
next
  case (exhaust w)
  with assms(2) not_signalled_waiting[OF assms(2) exhaust(2)] show ?thesis
    by (auto simp: inv_main_def signalled_count_same)
next
  case (finish w)
  with assms(2) show ?thesis
    by (cases "main_thread s") (auto simp: inv_main_def signalled_count_same nth_list_update)
next
  case (close_c i)
  with assms(2) show ?thesis
    by (cases "main_thread s") (auto simp: inv_main_def)
qed

lemma step_inv:
  assumes "inv e g jobs complete s" "step e g jobs complete a s = Some s'"
  shows "inv e g jobs complete s'"
proof -
  from assms(1) have p: "inv_workers e s" "inv_handed jobs s" "inv_main e complete s"
    "inv_closed s" "inv_sent complete s" "inv_prov e jobs s" "inv_printed e g complete s"
    by (simp_all add: inv_def)
  note st = assms(2)
  show ?thesis
    unfolding inv_def
    using step_workers[OF p(1,3) st] step_handed[OF p(1,3,2) st] step_main[OF p(1,3) st]
      step_closed[OF p(1,3,4) st] step_sent[OF p(1,3,5) st] step_prov[OF p(1,3,6) st]
      step_printed[OF p(1,3,7) st]
    by simp
qed

lemma run_inv:
  "inv e g jobs complete s \<Longrightarrow> run e g jobs complete sched s = Some s'
   \<Longrightarrow> inv e g jobs complete s'"
proof (induction sched arbitrary: s)
  case Nil
  then show ?case by simp
next
  case (Cons a sched)
  from Cons.prems(2) obtain s1 where s1: "step e g jobs complete a s = Some s1"
    and r: "run e g jobs complete sched s1 = Some s'"
    by (simp split: option.splits)
  from Cons.prems(1) s1 have "inv e g jobs complete s1" by (rule step_inv)
  then show ?case using r by (rule Cons.IH)
qed

lemma inv_start: "inv e g jobs complete (Download_start e jobs complete)"
  by (simp add: inv_def Download_start_def inv_workers_def inv_handed_def inv_main_def
      inv_closed_def inv_sent_def inv_prov_def inv_printed_def held_def)

lemma Download_inv:
  "Download e g jobs complete sched = Some s \<Longrightarrow> inv e g jobs complete s"
  unfolding Download_def using inv_start by (rule run_inv)

subsection \<open>Progress\<close>

lemma weight_update:
  assumes "w < length (workers s)"
  shows "sum_list (map (\<lambda>w. pc_weight (pc w)) ((workers s)[w := v])) + pc_weight (pc (workers s ! w))
         = sum_list (map (\<lambda>w. pc_weight (pc w)) (workers s)) + pc_weight (pc v)"
  using sum_list_update_weight[OF assms, of "\<lambda>w. pc_weight (pc w)" v] .

lemma step_weight:
  assumes "inv_workers e s" "inv_main e complete s" "step e g jobs complete a s = Some s'"
  shows "weight jobs s' < weight jobs s"
  using assms
proof (cases rule: step_cases)
  case (take w i)
  with weight_update[OF take(4), of "(workers s ! w)\<lparr>pc := GotJob (tagged jobs i)\<rparr>"]
  show ?thesis by (simp add: weight_def)
next
  case (process w x job evs)
  with weight_update[OF process(2), of "\<lparr>pc = AtJobDone (job_out (fetch_persist_verify e x job)),
      defers = defers (workers s ! w) @ deferred (fetch_persist_verify e x job)\<rparr>"]
  show ?thesis by (simp add: weight_def)
next
  case (deliver_chan w job)
  with weight_update[OF deliver_chan(2), of "(workers s ! w)\<lparr>pc := AtRange\<rparr>"]
  show ?thesis by (simp add: weight_def)
next
  case (deliver_log w job ev)
  with weight_update[OF deliver_log(2), of "(workers s ! w)\<lparr>pc := AtRange\<rparr>"]
  show ?thesis by (simp add: weight_def)
next
  case (deliver_quiet w job)
  with weight_update[OF deliver_quiet(2), of "(workers s ! w)\<lparr>pc := AtRange\<rparr>"]
  show ?thesis by (simp add: weight_def)
next
  case (exhaust w)
  with weight_update[OF exhaust(2), of "(workers s ! w)\<lparr>pc := AtDone\<rparr>"]
  show ?thesis by (simp add: weight_def)
next
  case (signal w i)
  with weight_update[OF signal(2), of "(workers s ! w)\<lparr>pc := Returning\<rparr>"]
  show ?thesis by (simp add: weight_def)
next
  case (finish w)
  with weight_update[OF finish(2), of "\<lparr>pc = Ended, defers = []\<rparr>"]
  show ?thesis by (simp add: weight_def)
next
  case (close_c i)
  then show ?thesis by (simp add: weight_def)
next
  case (return i)
  then show ?thesis by (simp add: weight_def)
qed

text \<open>While the caller has not returned, some action can happen.\<close>

lemma can_step:
  assumes "inv e g jobs complete s" "main_thread s = Waiting i"
  shows "\<exists>a s'. step e g jobs complete a s = Some s'"
proof -
  from assms(1) have live: "crashed s = None" and len: "length (workers s) = (if prod s = NotStarted then 0 else nat (DownloadThreads e))"
    by (simp_all add: inv_def inv_workers_def)
  from assms have cnt: "i = int (length (filter (\<lambda>w. signalled (pc w)) (workers s)))"
    and started: "prod s \<noteq> NotStarted"
    by (simp_all add: inv_def inv_main_def)
  show ?thesis
  proof (cases "\<exists>w < length (workers s). \<not> signalled (pc (workers s ! w))")
    case False
    then have "filter (\<lambda>w. signalled (pc w)) (workers s) = workers s"
      by (auto simp: filter_id_conv in_set_conv_nth)
    with cnt len started have "\<not> i < DownloadThreads e" by simp
    with assms(2) live have "\<exists>s'. step e g jobs complete Return s = Some s'"
      using assms(1) by (auto simp: do_return_def inv_def inv_main_def)
    then show ?thesis by blast
  next
    case True
    then obtain w where w: "w < length (workers s)" "\<not> signalled (pc (workers s ! w))" by blast
    from w(1) cnt have lt: "i < DownloadThreads e"
      using length_filter_less[of "workers s ! w" "workers s" "\<lambda>w. signalled (pc w)"] w len started
      by (auto split: if_splits)
    show ?thesis
    proof (cases "pc (workers s ! w)")
      case AtRange
      show ?thesis
      proof (cases "prod s")
        case NotStarted
        with started show ?thesis by simp
      next
        case (Sending k)
        show ?thesis
        proof (cases "k < length jobs")
          case True
          with Sending AtRange w live have "\<exists>s'. step e g jobs complete (Take w) s = Some s'"
            by (simp add: do_take_def)
          then show ?thesis by blast
        next
          case False
          with Sending live have "\<exists>s'. step e g jobs complete CloseC s = Some s'"
            by (simp add: do_close_c_def)
          then show ?thesis by blast
        qed
      next
        case Closed
        with AtRange w live have "\<exists>s'. step e g jobs complete (Exhaust w) s = Some s'"
          by (simp add: do_exhaust_def)
        then show ?thesis by blast
      qed
    next
      case (GotJob job)
      with w live have "\<exists>s'. step e g jobs complete (Process w x) s = Some s'" for x
        by (simp add: do_process_def Let_def split: sum.splits)
      then show ?thesis by blast
    next
      case (AtJobDone job)
      with w live have "\<exists>s'. step e g jobs complete (Deliver w) s = Some s'"
        by (simp add: do_deliver_def Let_def split: sum.splits)
      then show ?thesis by blast
    next
      case AtDone
      with w live lt assms(2) have "\<exists>s'. step e g jobs complete (Signal w) s = Some s'"
        by (simp add: do_signal_def)
      then show ?thesis by blast
    next
      case Returning
      with w show ?thesis by simp
    next
      case Ended
      with w show ?thesis by simp
    qed
  qed
qed

lemma run_append:
  "run e g jobs complete (xs @ ys) s =
     (case run e g jobs complete xs s of None \<Rightarrow> None | Some s' \<Rightarrow> run e g jobs complete ys s')"
  by (induction xs arbitrary: s) (auto split: option.splits)

lemma can_return:
  assumes "inv e g jobs complete s"
  shows "\<exists>more s'. run e g jobs complete more s = Some s' \<and> main_thread s' = Returned None"
  using assms
proof (induction "weight jobs s" arbitrary: s rule: less_induct)
  case less
  show ?case
  proof (cases "main_thread s")
    case (Returned r)
    with less.prems have "main_thread s = Returned None" by (simp add: inv_def inv_main_def)
    then have "run e g jobs complete [] s = Some s \<and> main_thread s = Returned None" by simp
    then show ?thesis by blast
  next
    case (Waiting i)
    with less.prems obtain a s1 where st: "step e g jobs complete a s = Some s1"
      using can_step by blast
    from less.prems have p: "inv_workers e s" "inv_main e complete s" by (simp_all add: inv_def)
    from step_weight[OF p st] have "weight jobs s1 < weight jobs s" .
    moreover from less.prems st have "inv e g jobs complete s1" by (rule step_inv)
    ultimately obtain more s' where "run e g jobs complete more s1 = Some s'"
      "main_thread s' = Returned None"
      using less.hyps by blast
    with st have "run e g jobs complete (a # more) s = Some s' \<and> main_thread s' = Returned None"
      by simp
    then show ?thesis by blast
  qed
qed

lemma run_length:
  "inv e g jobs complete s \<Longrightarrow> run e g jobs complete sched s = Some s'
   \<Longrightarrow> length sched + weight jobs s' \<le> weight jobs s"
proof (induction sched arbitrary: s)
  case Nil
  then show ?case by simp
next
  case (Cons a sched)
  from Cons.prems(2) obtain s1 where s1: "step e g jobs complete a s = Some s1"
    and r: "run e g jobs complete sched s1 = Some s'"
    by (simp split: option.splits)
  from Cons.prems(1) have p: "inv_workers e s" "inv_main e complete s" by (simp_all add: inv_def)
  from step_weight[OF p s1] have "weight jobs s1 < weight jobs s" .
  moreover from Cons.prems(1) s1 have "inv e g jobs complete s1" by (rule step_inv)
  then have "length sched + weight jobs s' \<le> weight jobs s1" using r by (rule Cons.IH)
  ultimately show ?case by simp
qed

lemma weight_start:
  "weight jobs (Download_start e jobs complete) \<le> 3 * length jobs + 3 * nat (DownloadThreads e) + 2"
  by (simp add: weight_def Download_start_def sum_list_replicate)

subsection \<open>The return value and the result channel\<close>

text \<open>The definitions to unfold when a schedule is run on a concrete input.\<close>

lemmas run_simps = Download_def Download_start_def do_take_def do_process_def do_deliver_def
  do_exhaust_def do_signal_def do_finish_def do_close_c_def do_return_def set_worker_def
  env0_def globals_init_def job_a_def job_b_def ext_ok_def ext_404_def
  fetch_persist_verify_def validate_checksum_def Dprintf_def Errorf_def Logf_def
  failure_text_def progress_text_def StatusOK_def LOG_CAT_ERROR_def

lemma Download_extend:
  assumes "Download e g jobs complete sched = Some s"
  shows "\<exists>more s'. Download e g jobs complete (sched @ more) = Some s'
           \<and> main_thread s' = Returned None \<and> inv e g jobs complete s'"
proof -
  from assms have i: "inv e g jobs complete s" by (rule Download_inv)
  then obtain more s' where m: "run e g jobs complete more s = Some s'"
    "main_thread s' = Returned None"
    using can_return by blast
  from i m(1) have "inv e g jobs complete s'" by (rule run_inv)
  with assms m show ?thesis by (auto simp: Download_def run_append)
qed

text \<open>
  C8: whatever the jobs, the channel argument and the schedule, \<open>Download\<close> returns only
  \<open>nil\<close>: in every state an execution reaches, a caller that has returned has returned
  \<open>nil\<close> and nothing has panicked; and it does return: every execution can be continued to
  the return (the caller receiving what is sent, and every call of a job coming back), and
  no execution has more actions than three per job and per worker, plus two.
\<close>

theorem Download_returns_nil:
  assumes "Download e g jobs complete sched = Some s"
  shows "(\<forall>r. main_thread s = Returned r \<longrightarrow> r = None)
         \<and> crashed s = None
         \<and> (\<exists>more s'. Download e g jobs complete (sched @ more) = Some s'
               \<and> main_thread s' = Returned None)
         \<and> length sched \<le> 3 * length jobs + 3 * nat (DownloadThreads e) + 2"
proof -
  from assms have i: "inv e g jobs complete s" by (rule Download_inv)
  then have "\<forall>r. main_thread s = Returned r \<longrightarrow> r = None"
    by (auto simp: inv_def inv_main_def)
  moreover from i have "crashed s = None" by (simp add: inv_def inv_workers_def)
  moreover from Download_extend[OF assms]
  have "\<exists>more s'. Download e g jobs complete (sched @ more) = Some s'
               \<and> main_thread s' = Returned None" by blast
  moreover have "length sched \<le> 3 * length jobs + 3 * nat (DownloadThreads e) + 2"
    using run_length[OF inv_start, of e g jobs complete sched s] assms
      weight_start[of jobs e complete]
    by (simp add: Download_def)
  ultimately show ?thesis by blast
qed

theorem Download_returns_nil_witness:
  "\<exists>s. Download env0 globals_init [job_a] True
          [Take 0, Process 0 ext_404, Deliver 0, CloseC, Exhaust 0, Signal 0, Return] = Some s
       \<and> main_thread s = Returned None
       \<and> map Error (sent s) = [Some (FmtErrorf ''Bad status: 404 Not Found'')]
       \<and> crashed s = None"
proof -
  obtain s where run: "Download env0 globals_init [job_a] True
          [Take 0, Process 0 ext_404, Deliver 0, CloseC, Exhaust 0, Signal 0, Return] = Some s"
    and r: "main_thread s = Returned None"
    and o: "map Error (sent s) = [Some (FmtErrorf ''Bad status: 404 Not Found'')]"
    by (simp add: run_simps)
  from Download_returns_nil[OF run] run r o show ?thesis by simp
qed

lemma no_step_after_empty: "step e g [] complete a (Download_start e [] complete) = None"
  by (cases a) (simp_all add: Download_start_def do_defs)

lemma Download_empty:
  assumes "Download e g [] complete sched = Some s"
  shows "sched = [] \<and> s = Download_start e [] complete"
proof (cases sched)
  case Nil
  with assms show ?thesis by (simp add: Download_def)
next
  case (Cons a as)
  with assms show ?thesis by (simp add: Download_def no_step_after_empty del: step.simps)
qed

text \<open>
  C2: with a channel, \<open>complete\<close> is closed once: in every state an execution reaches,
  nothing has panicked (so no second close, and no send after the close), the channel has
  been closed exactly when the caller has returned, and every execution can be continued
  to a return, where it is closed once. With no job, the only execution is the empty one:
  \<open>Download\<close> has returned \<open>nil\<close> and closed the channel, nothing was sent, and neither the
  producer nor a worker was started.
\<close>

theorem complete_closed_once:
  assumes "Download e g jobs True sched = Some s"
  shows "crashed s = None
         \<and> closes s = (case main_thread s of Returned r \<Rightarrow> 1 | Waiting i \<Rightarrow> 0)
         \<and> (\<exists>more s'. Download e g jobs True (sched @ more) = Some s'
               \<and> main_thread s' = Returned None \<and> closes s' = 1)
         \<and> (jobs = [] \<longrightarrow>
               sched = [] \<and> main_thread s = Returned None \<and> closes s = 1 \<and> sent s = []
               \<and> prod s = NotStarted \<and> workers s = [])"
proof -
  from assms have i: "inv e g jobs True s" by (rule Download_inv)
  then have "crashed s = None" by (simp add: inv_def inv_workers_def)
  moreover from i have "closes s = (case main_thread s of Returned r \<Rightarrow> 1 | Waiting i \<Rightarrow> 0)"
    by (auto simp: inv_def inv_main_def split: main_pc.splits)
  moreover have "\<exists>more s'. Download e g jobs True (sched @ more) = Some s'
               \<and> main_thread s' = Returned None \<and> closes s' = 1"
  proof -
    from Download_extend[OF assms] obtain more s' where
      m: "Download e g jobs True (sched @ more) = Some s'" "main_thread s' = Returned None"
      "inv e g jobs True s'" by blast
    from m(2,3) have "closes s' = 1" by (simp add: inv_def inv_main_def)
    with m(1,2) show ?thesis by blast
  qed
  moreover have "jobs = [] \<longrightarrow>
               sched = [] \<and> main_thread s = Returned None \<and> closes s = 1 \<and> sent s = []
               \<and> prod s = NotStarted \<and> workers s = []"
    using assms Download_empty[of e g True sched s] by (auto simp: Download_start_def)
  ultimately show ?thesis by blast
qed

theorem complete_closed_once_witness:
  "\<exists>s. Download env0 globals_init [] True [] = Some s
       \<and> main_thread s = Returned None \<and> closes s = 1 \<and> sent s = []
       \<and> prod s = NotStarted \<and> workers s = [] \<and> crashed s = None"
proof -
  obtain s where run: "Download env0 globals_init [] True [] = Some s"
    by (simp add: run_simps)
  from complete_closed_once[OF run] run show ?thesis by simp
qed

subsection \<open>Deliveries\<close>

lemma held_all_signalled:
  "(\<forall>w < length ws. signalled (pc (ws ! w))) \<Longrightarrow> held ws = []"
proof (induction ws)
  case Nil
  then show ?case by (simp add: held_def)
next
  case (Cons a ws)
  from Cons.prems have "signalled (pc a)" by auto
  moreover from Cons.prems have "\<forall>w < length ws. signalled (pc (ws ! w))" by auto
  ultimately show ?case using Cons.IH by (cases "pc a") (auto simp: held_def)
qed

lemma only_Error_changes:
  "\<exists>err. job_out (fetch_persist_verify e x job) = job\<lparr>Error := err\<rparr>"
  by (auto simp: fetch_persist_verify_def validate_checksum_def 
      split: sum.splits option.splits prod.splits intro: exI[of _ "Error job"])

lemma positions_upt: "map (\<lambda>k. int k + 1) [0..<n] = map int [1..<Suc n]"
proof -
  have "map int [1..<Suc n] = map int (map Suc [0..<n])" by (simp only: map_Suc_upt One_nat_def)
  then show ?thesis by (simp add: comp_def add.commute)
qed

lemma returned_all_handed:
  assumes "inv e g jobs complete s" "main_thread s = Returned r" "0 < DownloadThreads e"
  shows "mset (map Index (finished s)) = mset (map int [1..<Suc (length jobs)])"
proof (cases "jobs = []")
  case True
  from assms(1) have "handed jobs (prod s) \<le> length jobs"
    "mset (map Index (finished s)) + mset (map Index (held (workers s)))
       = mset (map (\<lambda>k. int k + 1) [0..<handed jobs (prod s)])"
    by (simp_all add: inv_def inv_handed_def)
  with True show ?thesis by (simp del: upt_Suc)
next
  case False
  from assms(1) have h: "mset (map Index (finished s)) + mset (map Index (held (workers s)))
       = mset (map (\<lambda>k. int k + 1) [0..<handed jobs (prod s)])"
    and ns: "prod s \<noteq> NotStarted"
    using False by (auto simp: inv_def inv_handed_def)
  from assms(1,2) have sig: "\<forall>w < length (workers s). signalled (pc (workers s ! w))"
    by (simp add: inv_def inv_main_def)
  from assms(1,3) ns have "0 < length (workers s)" by (simp add: inv_def inv_workers_def)
  with sig have "signalled (pc (workers s ! 0))" by blast
  then have "past_loop (pc (workers s ! 0))" by (cases "pc (workers s ! 0)") simp_all
  with assms(1) \<open>0 < length (workers s)\<close> have "prod s = Closed"
    by (auto simp: inv_def inv_closed_def)
  with h held_all_signalled[OF sig] show ?thesis by (simp add: positions_upt del: upt_Suc)
qed

text \<open>
  C1, as stated, promises \<open>N\<close> deliveries for every non-empty batch. With
  \<open>DownloadThreads = 0\<close> neither loop over the workers runs: no worker is started, the
  producer stays blocked on its first send (no worker can take the job, and the producer
  cannot close \<open>c\<close>), and \<open>Download\<close> returns at once, having closed the channel with nothing
  sent on it.
\<close>

theorem no_worker_no_delivery_counterexample:
  "map_option main_thread
     (Download (env0\<lparr>DownloadThreads := 0\<rparr>) globals_init [job_a] True [Return])
     = Some (Returned None)
   \<and> map_option sent
     (Download (env0\<lparr>DownloadThreads := 0\<rparr>) globals_init [job_a] True [Return])
     = Some []
   \<and> map_option closes
     (Download (env0\<lparr>DownloadThreads := 0\<rparr>) globals_init [job_a] True [Return])
     = Some 1
   \<and> Download (env0\<lparr>DownloadThreads := 0\<rparr>) globals_init [job_a] True [Take 0] = None
   \<and> Download (env0\<lparr>DownloadThreads := 0\<rparr>) globals_init [job_a] True [CloseC] = None"
  by (simp add: run_simps)

text \<open>
  C1, amended: for every batch of \<open>N\<close> jobs given to \<open>Download\<close> with a channel, when at least
  one worker is configured (\<open>DownloadThreads\<close> is positive), once \<open>Download\<close> has returned
  exactly \<open>N\<close> jobs have been sent on the channel, their positions are \<open>1..N\<close> without
  repetition, and each is the input job at index \<open>position - 1\<close> with that position and an
  outcome.
\<close>

theorem all_jobs_delivered:
  assumes "Download e g jobs True sched = Some s" "main_thread s = Returned r"
    "0 < DownloadThreads e"
  shows "length (sent s) = length jobs
         \<and> mset (map Index (sent s)) = mset (map int [1..<Suc (length jobs)])
         \<and> distinct (map Index (sent s))
         \<and> set (map Index (sent s)) = {1..int (length jobs)}
         \<and> (\<forall>d \<in> set (sent s). \<exists>i < length jobs. \<exists>err.
               d = (jobs ! i)\<lparr>Index := int i + 1, Error := err\<rparr>)"
proof -
  from assms(1) have i: "inv e g jobs True s" by (rule Download_inv)
  then have sf: "sent s = finished s" by (simp add: inv_def inv_sent_def)
  from returned_all_handed[OF i assms(2,3)] sf
  have m: "mset (map Index (sent s)) = mset (map int [1..<Suc (length jobs)])" by simp
  from m have "size (mset (map Index (sent s))) = size (mset (map int [1..<Suc (length jobs)]))"
    by simp
  then have len: "length (sent s) = length jobs" by (simp del: upt_Suc)
  have d0: "distinct (map int [1..<Suc (length jobs)])" by (simp add: distinct_map del: upt_Suc)
  from m d0 have dist: "distinct (map Index (sent s))"
    using mset_eq_imp_distinct_iff by blast
  from m have "set (map Index (sent s)) = set (map int [1..<Suc (length jobs)])"
    by (rule mset_eq_setD)
  also have "\<dots> = {1..int (length jobs)}"
  proof -
    have "int ` {Suc 0..<Suc (length jobs)} = {1..int (length jobs)}"
    proof (intro set_eqI iffI)
      fix x assume "x \<in> int ` {Suc 0..<Suc (length jobs)}"
      then show "x \<in> {1..int (length jobs)}" by auto
    next
      fix x assume x: "x \<in> {1..int (length jobs)}"
      then have "nat x \<in> {Suc 0..<Suc (length jobs)}" by auto
      moreover from x have "x = int (nat x)" by simp
      ultimately show "x \<in> int ` {Suc 0..<Suc (length jobs)}" by (rule rev_image_eqI)
    qed
    then show ?thesis by (simp del: upt_Suc)
  qed
  finally have st: "set (map Index (sent s)) = {1..int (length jobs)}" .
  have prov: "\<forall>d \<in> set (sent s). \<exists>i < length jobs. \<exists>err.
               d = (jobs ! i)\<lparr>Index := int i + 1, Error := err\<rparr>"
  proof
    fix d assume "d \<in> set (sent s)"
    with i sf have "processed e jobs d" by (simp add: inv_def inv_prov_def)
    then obtain k x where k: "k < length jobs"
      "d = job_out (fetch_persist_verify e x (tagged jobs k))"
      unfolding processed_def by blast
    from only_Error_changes[of e x "tagged jobs k"] k(2)
    obtain err where "d = (tagged jobs k)\<lparr>Error := err\<rparr>" by auto
    with k(1) show "\<exists>i < length jobs. \<exists>err. d = (jobs ! i)\<lparr>Index := int i + 1, Error := err\<rparr>"
      unfolding tagged_def by blast
  qed
  from len m dist st prov show ?thesis by blast
qed

theorem all_jobs_delivered_witness:
  "\<exists>s. Download (env0\<lparr>DownloadThreads := 2\<rparr>) globals_init [job_a, job_b] True
          [Take 0, Take 1, Process 1 ext_ok, Deliver 1, Process 0 ext_404, Deliver 0, CloseC,
           Exhaust 0, Exhaust 1, Signal 1, Signal 0, Return] = Some s
       \<and> main_thread s = Returned None
       \<and> map Index (sent s) = [2, 1] \<and> map Label (sent s) = [''b.rpm'', ''a.rpm'']
       \<and> length (sent s) = length [job_a, job_b]"
proof -
  obtain s where run: "Download (env0\<lparr>DownloadThreads := 2\<rparr>) globals_init [job_a, job_b] True
          [Take 0, Take 1, Process 1 ext_ok, Deliver 1, Process 0 ext_404, Deliver 0, CloseC,
           Exhaust 0, Exhaust 1, Signal 1, Signal 0, Return] = Some s"
    and r: "main_thread s = Returned None"
    and o: "map Index (sent s) = [2, 1]" "map Label (sent s) = [''b.rpm'', ''a.rpm'']"
    by (simp add: run_simps)
  have t: "0 < DownloadThreads (env0\<lparr>DownloadThreads := 2\<rparr>)" by simp
  from all_jobs_delivered[OF run r t] run r o show ?thesis by simp
qed

subsection \<open>The stages of a job\<close>

text \<open>
  C5: when the request of a job comes back with a status other than 200, the job's error is
  the one \<open>fmt.Errorf\<close> builds from the response's status text, the request is the only
  call the job makes (no create, no copy, no checksum), and so the files are as they were.
\<close>

theorem bad_status_outcome:
  assumes "get_result x = Inr resp" "StatusCode resp \<noteq> StatusOK"
  shows "Error (job_out (fetch_persist_verify e x job)) = Some (FmtErrorf (''Bad status: '' @ Status resp))
         \<and> Error_text e (FmtErrorf (''Bad status: '' @ Status resp)) = ''Bad status: '' @ Status resp
         \<and> calls_made (fetch_persist_verify e x job) = [HttpGet (URL job)]
         \<and> filter is_file_call (calls_made (fetch_persist_verify e x job)) = []
         \<and> fold call_effect (calls_made (fetch_persist_verify e x job)) fs = fs"
  using assms by (simp add: fetch_persist_verify_def)

theorem bad_status_outcome_witness:
  "get_result ext_404 = Inr \<lparr>StatusCode = 404, Status = ''404 Not Found''\<rparr>
   \<and> StatusCode \<lparr>StatusCode = 404, Status = ''404 Not Found''\<rparr> \<noteq> StatusOK
   \<and> Error (job_out (fetch_persist_verify env0 ext_404 job_a))
       = Some (FmtErrorf ''Bad status: 404 Not Found'')
   \<and> calls_made (fetch_persist_verify env0 ext_404 job_a) = [HttpGet ''http://mirror/a.rpm'']
   \<and> fold call_effect (calls_made (fetch_persist_verify env0 ext_404 job_a))
         [''/repo/a.rpm'' \<mapsto> ''old''] = [''/repo/a.rpm'' \<mapsto> ''old'']"
proof -
  have g: "get_result ext_404 = Inr \<lparr>StatusCode = 404, Status = ''404 Not Found''\<rparr>"
    by (simp add: ext_404_def)
  have st: "StatusCode \<lparr>StatusCode = 404, Status = ''404 Not Found''\<rparr> \<noteq> StatusOK"
    by (simp add: StatusOK_def)
  from bad_status_outcome[OF g st, of env0 job_a "[''/repo/a.rpm'' \<mapsto> ''old'']"] g st
  show ?thesis by (simp add: job_a_def)
qed

lemma reaches_verify:
  assumes "list_ex is_validate_call (calls_made (fetch_persist_verify e x job))"
  shows "job_out (fetch_persist_verify e x job) = validate_checksum e (validate_result x) job"
  using assms
  by (auto simp: fetch_persist_verify_def split: sum.splits option.splits prod.splits if_splits)

text \<open>
  C6: for a job that reaches the verify stage, a verifier that returns the sentinel
  \<open>yum.ErrChecksumMismatch\<close> makes that very value the job's error; any other error of the
  verifier is wrapped by \<open>fmt.Errorf\<close> under \<open>Checksum validation error\<close>; and a verifier
  that succeeds leaves the job, its error included, as it was.
\<close>

theorem verify_outcome:
  assumes "list_ex is_validate_call (calls_made (fetch_persist_verify e x job))"
  shows "(validate_result x = Some ErrChecksumMismatch \<longrightarrow>
            Error (job_out (fetch_persist_verify e x job)) = Some ErrChecksumMismatch)
         \<and> (\<forall>err. validate_result x = Some err \<and> err \<noteq> ErrChecksumMismatch \<longrightarrow>
            Error (job_out (fetch_persist_verify e x job))
              = Some (FmtErrorf (''Checksum validation error: '' @ Error_text e err)))
         \<and> (validate_result x = None \<longrightarrow>
            job_out (fetch_persist_verify e x job) = job)"
  using reaches_verify[OF assms] by (auto simp: validate_checksum_def)

theorem verify_outcome_witness:
  "list_ex is_validate_call
     (calls_made (fetch_persist_verify env0 (ext_ok\<lparr>validate_result := Some ErrChecksumMismatch\<rparr>) job_a))
   \<and> Error (job_out (fetch_persist_verify env0 (ext_ok\<lparr>validate_result := Some ErrChecksumMismatch\<rparr>) job_a))
       = Some ErrChecksumMismatch
   \<and> list_ex is_validate_call
     (calls_made (fetch_persist_verify env0 (ext_ok\<lparr>validate_result := Some (LibError ''unsupported checksum type'')\<rparr>) job_a))
   \<and> Error (job_out (fetch_persist_verify env0 (ext_ok\<lparr>validate_result := Some (LibError ''unsupported checksum type'')\<rparr>) job_a))
       = Some (FmtErrorf ''Checksum validation error: unsupported checksum type'')
   \<and> list_ex is_validate_call (calls_made (fetch_persist_verify env0 ext_ok job_a))
   \<and> job_out (fetch_persist_verify env0 ext_ok job_a) = job_a"
proof -
  have a: "list_ex is_validate_call
     (calls_made (fetch_persist_verify env0 (ext_ok\<lparr>validate_result := Some ErrChecksumMismatch\<rparr>) job_a))"
    by (simp add: fetch_persist_verify_def ext_ok_def StatusOK_def)
  have b: "list_ex is_validate_call
     (calls_made (fetch_persist_verify env0 (ext_ok\<lparr>validate_result := Some (LibError ''unsupported checksum type'')\<rparr>) job_a))"
    by (simp add: fetch_persist_verify_def ext_ok_def StatusOK_def)
  have c: "list_ex is_validate_call (calls_made (fetch_persist_verify env0 ext_ok job_a))"
    by (simp add: fetch_persist_verify_def ext_ok_def StatusOK_def)
  have va: "validate_result (ext_ok\<lparr>validate_result := Some ErrChecksumMismatch\<rparr>) = Some ErrChecksumMismatch"
    by simp
  have vb: "validate_result (ext_ok\<lparr>validate_result := Some (LibError ''unsupported checksum type'')\<rparr>)
      = Some (LibError ''unsupported checksum type'')" by simp
  have vc: "validate_result ext_ok = None" by (simp add: ext_ok_def)
  from verify_outcome[OF a] verify_outcome[OF b] verify_outcome[OF c] a b c va vb vc
  show ?thesis by simp
qed

subsection \<open>Values the caller set in a job\<close>

lemma all_ok_keeps_job:
  "all_stages_ok x \<Longrightarrow> job_out (fetch_persist_verify e x job) = job"
  by (auto simp: all_stages_ok_def fetch_persist_verify_def validate_checksum_def
      split: sum.splits option.splits prod.splits)

lemma failure_sets_Error:
  assumes "\<not> all_stages_ok x"
  shows "Error (job_out (fetch_persist_verify e x job)) \<noteq> None
         \<and> Error (job_out (fetch_persist_verify e x (job\<lparr>Error := pre\<rparr>)))
             = Error (job_out (fetch_persist_verify e x job))"
  using assms
  by (auto simp: all_stages_ok_def fetch_persist_verify_def validate_checksum_def
      split: sum.splits option.splits prod.splits)

text \<open>
  C4, as stated, has a job whose pipeline succeeds delivered without an error even if the
  caller passed one in. The worker assigns \<open>job.Error\<close> only when a stage fails, so the
  caller's value stays: a job passed in with position 7 and an error, all of whose stages
  succeed, is delivered with position 1 and that same error.
\<close>

theorem preset_outcome_kept_counterexample:
  "all_stages_ok ext_ok
   \<and> map_option sent
       (Download env0 globals_init [job_a\<lparr>Index := 7, Error := Some (LibError ''stale'')\<rparr>] True
          [Take 0, Process 0 ext_ok, Deliver 0, CloseC, Exhaust 0, Signal 0, Return])
     = Some [job_a\<lparr>Index := 1, Error := Some (LibError ''stale'')\<rparr>]"
  by (simp add: run_simps all_stages_ok_def)

text \<open>
  The outcome of a job depends on the answers of the outside world and on the error the
  job came with, and on nothing else.
\<close>

lemma stage_failure_ok: "all_stages_ok x \<longleftrightarrow> stage_failure e x = None"
  by (auto simp: all_stages_ok_def stage_failure_def split: sum.splits option.splits)

lemma job_out_stage_failure:
  "job_out (fetch_persist_verify e x job)
     = job\<lparr>Error := (case stage_failure e x of None \<Rightarrow> Error job | Some err \<Rightarrow> Some err)\<rparr>"
  by (auto simp: fetch_persist_verify_def validate_checksum_def stage_failure_def
      split: sum.splits option.splits prod.splits)

lemma step_other_worker:
  assumes "step e g jobs complete a s = Some s'" "actor a \<noteq> Some w"
  shows "workers s' ! w = workers s ! w"
  using assms
  by (cases a)
     (auto simp: do_defs set_worker_def Let_def
       split: if_splits producer.splits worker_pc.splits sum.splits main_pc.splits)

lemma run_other_workers:
  assumes "run e g jobs complete others s = Some s'" "\<forall>a \<in> set others. actor a \<noteq> Some w"
  shows "workers s' ! w = workers s ! w"
  using assms
proof (induction others arbitrary: s)
  case Nil
  then show ?case by simp
next
  case (Cons a others)
  from Cons.prems(1) obtain s1 where s1: "step e g jobs complete a s = Some s1"
    and r: "run e g jobs complete others s1 = Some s'"
    by (simp split: option.splits)
  from Cons.prems(2) have "actor a \<noteq> Some w" "\<forall>a \<in> set others. actor a \<noteq> Some w" by simp_all
  with s1 r Cons.IH show ?case using step_other_worker by metis
qed

lemma run_split:
  assumes "run e g jobs complete (xs @ ys) s = Some s'"
  obtains s1 where "run e g jobs complete xs s = Some s1" "run e g jobs complete ys s1 = Some s'"
  using assms by (auto simp: run_append split: option.splits)

text \<open>
  What the other goroutines do leaves a worker where it is, so that a worker that takes a
  job, runs it and delivers it sends what the pipeline made of the job it took.
\<close>

lemma worker_cycle:
  assumes i0: "inv e g jobs True s0"
    and take: "step e g jobs True (Take w) s0 = Some s1"
    and o1: "run e g jobs True others1 s1 = Some s2"
    and proc: "step e g jobs True (Process w x) s2 = Some s3"
    and o2: "run e g jobs True others2 s3 = Some s4"
    and del: "step e g jobs True (Deliver w) s4 = Some s5"
    and others: "\<forall>a \<in> set (others1 @ others2). actor a \<noteq> Some w"
  shows "\<exists>i < length jobs. prod s0 = Sending i
           \<and> sent s5 = sent s4 @ [job_out (fetch_persist_verify e x (tagged jobs i))]"
proof -
  from i0 have p0: "inv_workers e s0" "inv_main e True s0" by (simp_all add: inv_def)
  from p0 take obtain i where i: "prod s0 = Sending i" "i < length jobs"
    and w1: "w < length (workers s0)"
    and pc1: "pc (workers s1 ! w) = GotJob (tagged jobs i)"
    by (cases rule: step_cases) auto
  from i0 take have i1: "inv e g jobs True s1" by (rule step_inv)
  from i1 o1 have i2: "inv e g jobs True s2" by (rule run_inv)
  from others have n1: "\<forall>a \<in> set others1. actor a \<noteq> Some w"
    and n2: "\<forall>a \<in> set others2. actor a \<noteq> Some w" by simp_all
  from run_other_workers[OF o1 n1] pc1 have pc2: "pc (workers s2 ! w) = GotJob (tagged jobs i)"
    by simp
  from i2 have p2: "inv_workers e s2" "inv_main e True s2" by (simp_all add: inv_def)
  from p2 proc have pc3: "pc (workers s3 ! w)
      = AtJobDone (job_out (fetch_persist_verify e x (tagged jobs i)))"
    by (cases rule: step_cases) (use pc2 in auto)
  from i2 proc have i3: "inv e g jobs True s3" by (rule step_inv)
  from i3 o2 have i4: "inv e g jobs True s4" by (rule run_inv)
  from run_other_workers[OF o2 n2] pc3
  have pc4: "pc (workers s4 ! w) = AtJobDone (job_out (fetch_persist_verify e x (tagged jobs i)))"
    by simp
  from i4 have p4: "inv_workers e s4" "inv_main e True s4" by (simp_all add: inv_def)
  from p4 del have "sent s5 = sent s4 @ [job_out (fetch_persist_verify e x (tagged jobs i))]"
    by (cases rule: step_cases) (use pc4 in auto)
  with i show ?thesis by blast
qed

text \<open>
  Every delivery closes such a cycle: in an execution that ends with a delivery by worker
  \<open>w\<close>, the last two actions of \<open>w\<close> before it are a \<open>Take\<close> and a \<open>Process\<close>.
\<close>

lemma filter_eq_snoc:
  "filter P xs = ys @ [a] \<Longrightarrow>
   \<exists>us vs. xs = us @ [a] @ vs \<and> filter P us = ys \<and> (\<forall>v \<in> set vs. \<not> P v)"
proof (induction xs arbitrary: ys rule: rev_induct)
  case Nil
  then show ?case by simp
next
  case (snoc b xs)
  show ?case
  proof (cases "P b")
    case True
    with snoc.prems have "b = a" "filter P xs = ys" by simp_all
    then have "xs @ [b] = xs @ [a] @ [] \<and> filter P xs = ys \<and> (\<forall>v \<in> set []. \<not> P v)" by simp
    then show ?thesis by blast
  next
    case False
    with snoc.prems have "filter P xs = ys @ [a]" by simp
    from snoc.IH[OF this] obtain us vs where
      "xs = us @ [a] @ vs" "filter P us = ys" "\<forall>v \<in> set vs. \<not> P v" by blast
    with False have "xs @ [b] = us @ [a] @ (vs @ [b]) \<and> filter P us = ys
        \<and> (\<forall>v \<in> set (vs @ [b]). \<not> P v)" by simp
    then show ?thesis by blast
  qed
qed

lemma filter_two_last:
  assumes "filter P xs = ys @ [a1, a2]"
  shows "\<exists>pre o1 o2. xs = pre @ [a1] @ o1 @ [a2] @ o2 \<and> (\<forall>a \<in> set (o1 @ o2). \<not> P a)"
proof -
  from assms have "filter P xs = (ys @ [a1]) @ [a2]" by simp
  from filter_eq_snoc[OF this] obtain us o2 where
    1: "xs = us @ [a2] @ o2" "filter P us = ys @ [a1]" "\<forall>v \<in> set o2. \<not> P v" by blast
  from filter_eq_snoc[OF 1(2)] obtain pre o1 where
    2: "us = pre @ [a1] @ o1" "\<forall>v \<in> set o1. \<not> P v" by blast
  from 1(1) 2(1) have "xs = pre @ [a1] @ o1 @ [a2] @ o2" by simp
  moreover from 1(3) 2(2) have "\<forall>a \<in> set (o1 @ o2). \<not> P a" by auto
  ultimately show ?thesis by blast
qed

lemma step_length_workers:
  assumes "step e g jobs complete a s = Some s'"
  shows "length (workers s') = length (workers s)"
  using assms
  by (cases a)
     (auto simp: do_defs set_worker_def Let_def
       split: if_splits producer.splits worker_pc.splits sum.splits main_pc.splits)

lemma last_actions:
  assumes "Download e g jobs complete sched = Some s" "w < length (workers s)"
  shows "(\<forall>j. pc (workers s ! w) = GotJob j \<longrightarrow>
            (\<exists>ys. filter (\<lambda>a. actor a = Some w) sched = ys @ [Take w]))
       \<and> (\<forall>j. pc (workers s ! w) = AtJobDone j \<longrightarrow>
            (\<exists>ys x. filter (\<lambda>a. actor a = Some w) sched = ys @ [Take w, Process w x]))"
  using assms
proof (induction sched arbitrary: s rule: rev_induct)
  case Nil
  then show ?case by (auto simp: Download_def Download_start_def split: if_splits)
next
  case (snoc a sched)
  from snoc.prems(1) obtain s0 where s0: "Download e g jobs complete sched = Some s0"
    and st: "step e g jobs complete a s0 = Some s"
    by (auto simp: Download_def run_append simp del: step.simps split: option.splits)
  from st snoc.prems(2) have w0: "w < length (workers s0)" by (simp add: step_length_workers)
  note IH = snoc.IH[OF s0 w0]
  from s0 have i0: "inv e g jobs complete s0" by (rule Download_inv)
  then have p0: "inv_workers e s0" "inv_main e complete s0" by (simp_all add: inv_def)
  show ?case
  proof (cases "actor a = Some w")
    case False
    with st have "workers s ! w = workers s0 ! w" by (rule step_other_worker)
    with IH False show ?thesis by simp
  next
    case True
    from p0 st show ?thesis
    proof (cases rule: step_cases)
      case (take w' i)
      with True show ?thesis by simp
    next
      case (process w' x job evs)
      with True have "w' = w" by simp
      with process IH obtain ys where "filter (\<lambda>a. actor a = Some w) sched = ys @ [Take w]"
        by auto
      with process \<open>w' = w\<close> show ?thesis by simp
    qed (use True in auto)
  qed
qed

lemma delivery_ends_cycle:
  assumes "Download e g jobs complete (sched @ [Deliver w]) = Some s"
  shows "\<exists>before others1 x others2.
           sched = before @ [Take w] @ others1 @ [Process w x] @ others2
           \<and> (\<forall>a \<in> set (others1 @ others2). actor a \<noteq> Some w)"
proof -
  from assms obtain s0 where s0: "Download e g jobs complete sched = Some s0"
    and st: "step e g jobs complete (Deliver w) s0 = Some s"
    by (auto simp: Download_def run_append simp del: step.simps split: option.splits)
  from st obtain job where w: "w < length (workers s0)" "pc (workers s0 ! w) = AtJobDone job"
    by (auto simp: do_deliver_def split: if_splits worker_pc.splits)
  from last_actions[OF s0 w(1)] w(2) obtain ys x where
    "filter (\<lambda>a. actor a = Some w) sched = ys @ [Take w, Process w x]" by blast
  from filter_two_last[OF this] show ?thesis by blast
qed

text \<open>
  C4, amended: the position a caller set is ignored, the outcome a caller set is not.
  Whenever, in an execution, a worker takes a job while the producer is at iteration \<open>i\<close>,
  runs it against the answers \<open>x\<close> of the outside world and delivers it (the other
  goroutines acting in between as they will), the job sent on the channel is the input job
  at index \<open>i\<close> with position \<open>i + 1\<close>, whatever position the caller had set, and with this
  outcome: when every stage succeeded, the outcome the caller passed in (absent only if
  the caller left it absent); when a stage failed, the error of the first stage that
  failed, whatever outcome the caller had set.
\<close>

theorem position_assigned_outcome_kept:
  assumes "Download e g jobs True before = Some s0"
    and "Download e g jobs True
           (before @ [Take w] @ others1 @ [Process w x] @ others2 @ [Deliver w]) = Some s"
    and "\<forall>a \<in> set (others1 @ others2). actor a \<noteq> Some w"
  shows "\<exists>i < length jobs. prod s0 = Sending i
           \<and> sent s \<noteq> []
           \<and> last (sent s)
               = (jobs ! i)\<lparr>Index := int i + 1,
                             Error := (case stage_failure e x of
                                         None \<Rightarrow> Error (jobs ! i)
                                       | Some err \<Rightarrow> Some err)\<rparr>
           \<and> Index (last (sent s)) = int i + 1
           \<and> (all_stages_ok x \<longrightarrow>
                 stage_failure e x = None \<and> Error (last (sent s)) = Error (jobs ! i))
           \<and> (\<not> all_stages_ok x \<longrightarrow>
                 stage_failure e x \<noteq> None \<and> Error (last (sent s)) = stage_failure e x)"
proof -
  from assms(1) have i0: "inv e g jobs True s0" by (rule Download_inv)
  from assms(1,2) have "run e g jobs True
      ([Take w] @ others1 @ [Process w x] @ others2 @ [Deliver w]) s0 = Some s"
    by (simp add: Download_def run_append)
  then obtain s1 where take: "step e g jobs True (Take w) s0 = Some s1"
    and r1: "run e g jobs True (others1 @ [Process w x] @ others2 @ [Deliver w]) s1 = Some s"
    by (simp del: step.simps split: option.splits)
  from r1 obtain s2 where o1: "run e g jobs True others1 s1 = Some s2"
    and r2: "run e g jobs True ([Process w x] @ others2 @ [Deliver w]) s2 = Some s"
    by (rule run_split)
  from r2 obtain s3 where proc: "step e g jobs True (Process w x) s2 = Some s3"
    and r3: "run e g jobs True (others2 @ [Deliver w]) s3 = Some s"
    by (simp del: step.simps split: option.splits)
  from r3 obtain s4 where o2: "run e g jobs True others2 s3 = Some s4"
    and r4: "run e g jobs True [Deliver w] s4 = Some s"
    by (rule run_split)
  from r4 have del: "step e g jobs True (Deliver w) s4 = Some s"
    by (simp del: step.simps split: option.splits)
  from worker_cycle[OF i0 take o1 proc o2 del assms(3)]
  obtain i where i: "i < length jobs" "prod s0 = Sending i"
    and snt: "sent s = sent s4 @ [job_out (fetch_persist_verify e x (tagged jobs i))]"
    by blast
  let ?d = "(jobs ! i)\<lparr>Index := int i + 1,
                             Error := (case stage_failure e x of
                                         None \<Rightarrow> Error (jobs ! i)
                                       | Some err \<Rightarrow> Some err)\<rparr>"
  from snt have ne: "sent s \<noteq> []" by simp
  from snt have l: "last (sent s) = ?d"
    by (simp add: job_out_stage_failure tagged_def split: option.splits)
  from l have idx: "Index (last (sent s)) = int i + 1" by simp
  have ok: "all_stages_ok x \<longrightarrow>
                 stage_failure e x = None \<and> Error (last (sent s)) = Error (jobs ! i)"
    using l by (auto simp: stage_failure_ok[of x e])
  have bad: "\<not> all_stages_ok x \<longrightarrow>
                 stage_failure e x \<noteq> None \<and> Error (last (sent s)) = stage_failure e x"
    using l by (auto simp: stage_failure_ok[of x e])
  from i ne l idx ok bad show ?thesis by blast
qed

theorem position_assigned_outcome_kept_witness:
  "\<exists>s0 s s0' s'.
     Download (env0\<lparr>DownloadThreads := 2\<rparr>) globals_init
         [job_a\<lparr>Index := 7, Error := Some (LibError ''stale'')\<rparr>, job_b] True [] = Some s0
     \<and> Download (env0\<lparr>DownloadThreads := 2\<rparr>) globals_init
         [job_a\<lparr>Index := 7, Error := Some (LibError ''stale'')\<rparr>, job_b] True
         ([] @ [Take 0] @ [Take 1] @ [Process 0 ext_ok] @ [Process 1 ext_404] @ [Deliver 0])
         = Some s
     \<and> (\<forall>a \<in> set ([Take 1] @ [Process 1 ext_404]). actor a \<noteq> Some 0)
     \<and> all_stages_ok ext_ok
     \<and> prod s0 = Sending 0
     \<and> Index (last (sent s)) = 1
     \<and> Error (last (sent s)) = Some (LibError ''stale'')
     \<and> Download (env0\<lparr>DownloadThreads := 2\<rparr>) globals_init
         [job_a\<lparr>Index := 7, Error := Some (LibError ''stale'')\<rparr>, job_b] True [Take 0] = Some s0'
     \<and> Download (env0\<lparr>DownloadThreads := 2\<rparr>) globals_init
         [job_a\<lparr>Index := 7, Error := Some (LibError ''stale'')\<rparr>, job_b] True
         ([Take 0] @ [Take 1] @ [Process 0 ext_ok] @ [Process 1 ext_404] @ [Deliver 0] @ [Deliver 1])
         = Some s'
     \<and> (\<forall>a \<in> set ([Process 0 ext_ok] @ [Deliver 0]). actor a \<noteq> Some 1)
     \<and> \<not> all_stages_ok ext_404
     \<and> prod s0' = Sending 1
     \<and> Index (last (sent s')) = 2
     \<and> Error (last (sent s')) = Some (FmtErrorf ''Bad status: 404 Not Found'')"
proof -
  define E where "E = env0\<lparr>DownloadThreads := 2\<rparr>"
  define J where "J = [job_a\<lparr>Index := 7, Error := Some (LibError ''stale'')\<rparr>, job_b]"
  have "\<exists>s0. Download E globals_init J True [] = Some s0 \<and> prod s0 = Sending 0"
    unfolding E_def J_def by (simp add: run_simps)
  then obtain s0 where a0: "Download E globals_init J True [] = Some s0 \<and> prod s0 = Sending 0" ..
  then have r0: "Download E globals_init J True [] = Some s0" and p0: "prod s0 = Sending 0"
    by simp_all
  have "\<exists>s. Download E globals_init J True
         ([] @ [Take 0] @ [Take 1] @ [Process 0 ext_ok] @ [Process 1 ext_404] @ [Deliver 0])
         = Some s"
    unfolding E_def J_def by (simp add: run_simps)
  then obtain s where r: "Download E globals_init J True
         ([] @ [Take 0] @ [Take 1] @ [Process 0 ext_ok] @ [Process 1 ext_404] @ [Deliver 0])
         = Some s" ..
  have n: "\<forall>a \<in> set ([Take 1] @ [Process 1 ext_404]). actor a \<noteq> Some 0" by simp
  have ok: "all_stages_ok ext_ok" by (simp add: all_stages_ok_def ext_ok_def StatusOK_def)
  from position_assigned_outcome_kept[OF r0 r n] p0 ok
  have c: "Index (last (sent s)) = 1 \<and> Error (last (sent s)) = Error (J ! 0)" by auto
  then have c1: "Index (last (sent s)) = 1"
    and c2: "Error (last (sent s)) = Some (LibError ''stale'')"
    by (simp_all add: J_def)
  have "\<exists>s0'. Download E globals_init J True [Take 0] = Some s0' \<and> prod s0' = Sending 1"
    unfolding E_def J_def by (simp add: run_simps)
  then obtain s0' where a0': "Download E globals_init J True [Take 0] = Some s0'
      \<and> prod s0' = Sending 1" ..
  then have r0': "Download E globals_init J True [Take 0] = Some s0'"
    and p0': "prod s0' = Sending 1"
    by simp_all
  have "\<exists>s'. Download E globals_init J True
         ([Take 0] @ [Take 1] @ [Process 0 ext_ok] @ [Process 1 ext_404] @ [Deliver 0] @ [Deliver 1])
         = Some s'"
    unfolding E_def J_def by (simp add: run_simps)
  then obtain s' where r': "Download E globals_init J True
         ([Take 0] @ [Take 1] @ [Process 0 ext_ok] @ [Process 1 ext_404] @ [Deliver 0] @ [Deliver 1])
         = Some s'" ..
  have n': "\<forall>a \<in> set ([Process 0 ext_ok] @ [Deliver 0]). actor a \<noteq> Some 1" by simp
  have bad: "\<not> all_stages_ok ext_404"
    by (simp add: all_stages_ok_def ext_404_def StatusOK_def)
  have sf: "stage_failure E ext_404 = Some (FmtErrorf ''Bad status: 404 Not Found'')"
    by (simp add: stage_failure_def ext_404_def StatusOK_def)
  from position_assigned_outcome_kept[OF r0' r' n'] p0' bad
  have c': "Index (last (sent s')) = 2 \<and> Error (last (sent s')) = stage_failure E ext_404"
    by auto
  with sf have c1': "Index (last (sent s')) = 2"
    and c2': "Error (last (sent s')) = Some (FmtErrorf ''Bad status: 404 Not Found'')"
    by simp_all
  show ?thesis
    apply (rule exI[of _ s0], rule exI[of _ s], rule exI[of _ s0'], rule exI[of _ s'])
    apply (fold E_def J_def)
    apply (intro conjI r0 r n ok p0 c1 c2 r0' r' n' bad p0' c1' c2')
    done
qed

subsection \<open>Reporting without a channel\<close>






subsection \<open>Response bodies and files\<close>

text \<open>No action but the end of a worker's function closes a resource.\<close>

lemma open_res_kept:
  assumes "inv_workers e s" "inv_main e complete s" "step e g jobs complete a s = Some s'"
    "\<forall>w. a \<noteq> Finish w"
  shows "set (open_res s) \<subseteq> set (open_res s')"
  using assms(1,2,3)
  by (cases rule: step_cases) (use assms(4) in auto)

text \<open>
  C3 has the response body and the file of a job closed before the worker takes its next
  job. The two \<open>defer\<close> statements (lines 173 and 187) stand inside the loop, and a deferred
  call runs when the enclosing function returns, which for a worker is after its loop and
  its \<open>done <- true\<close>. With one worker and two jobs that both succeed: when the worker has
  taken the second job, the body and the file of the first are still open; when \<open>Download\<close>
  has returned, those of both jobs are still open; they are closed when the worker's
  function ends.
\<close>

theorem deferred_closes_outlive_job:
  "map_option workers
     (Download env0 globals_init [job_a, job_b] True
        [Take 0, Process 0 ext_ok, Deliver 0, Take 0])
     = Some [\<lparr>pc = GotJob (job_b\<lparr>Index := 2\<rparr>), defers = [RespBody 1, OutFile 1]\<rparr>]
   \<and> map_option open_res
     (Download env0 globals_init [job_a, job_b] True
        [Take 0, Process 0 ext_ok, Deliver 0, Take 0])
     = Some [RespBody 1, OutFile 1]
   \<and> map_option main_thread
     (Download env0 globals_init [job_a, job_b] True
        [Take 0, Process 0 ext_ok, Deliver 0, Take 0, Process 0 ext_ok, Deliver 0,
         CloseC, Exhaust 0, Signal 0, Return])
     = Some (Returned None)
   \<and> map_option open_res
     (Download env0 globals_init [job_a, job_b] True
        [Take 0, Process 0 ext_ok, Deliver 0, Take 0, Process 0 ext_ok, Deliver 0,
         CloseC, Exhaust 0, Signal 0, Return])
     = Some [RespBody 1, OutFile 1, RespBody 2, OutFile 2]
   \<and> map_option open_res
     (Download env0 globals_init [job_a, job_b] True
        [Take 0, Process 0 ext_ok, Deliver 0, Take 0, Process 0 ext_ok, Deliver 0,
         CloseC, Exhaust 0, Signal 0, Return, Finish 0])
     = Some []"
  by (simp add: run_simps)

end
